theory Spec2Isabelle
  imports Complex_Main "HOL-Library.Multiset" "HOL-Library.AList"
begin

section \<open>Hand-TeX: the training data loader and the metadata utilities\<close>

text \<open>
  A shallow embedding of \<^verbatim>\<open>training/data_loader.py\<close>,
  \<^verbatim>\<open>handtex/utils.py\<close> (\<^verbatim>\<open>load_dict_to_attrs_safely\<close>) and
  \<^verbatim>\<open>tests/test_symbol_metadata_sanity.py\<close>.

  Conventions.
  \<^item> Python \<^verbatim>\<open>int\<close> is \<open>int\<close>; lengths and counters that cannot go negative are \<open>nat\<close>.
  \<^item> Python \<^verbatim>\<open>float\<close> is \<open>real\<close>: rounding of the binary floating point is not modelled.
  \<^item> Every \<^verbatim>\<open>raise\<close> and failing \<^verbatim>\<open>assert\<close> is a value \<open>Inl e\<close> of a sum type.
  \<^item> Library code (the SQLite cursor, the generators of \<^verbatim>\<open>random\<close> and
    \<^verbatim>\<open>numpy.random\<close>, the label encoder, the class \<^verbatim>\<open>SymbolData\<close>, the matrix
    helpers of \<^verbatim>\<open>image_gen\<close>) is not part of the modelled files and enters as a parameter.
\<close>

subsection \<open>Errors\<close>

datatype error =
    SplitAssertion                \<comment> \<open>\<^verbatim>\<open>assert validation_split < 0.5\<close>\<close>
  | NoSamples string              \<comment> \<open>\<^verbatim>\<open>assert samples, f"No samples found for symbol key: {symbol_key}"\<close>\<close>
  | UnseenLabel string            \<comment> \<open>\<^verbatim>\<open>label_encoder.transform\<close> on a label it was not fitted on\<close>
  | NotInList string              \<comment> \<open>\<^verbatim>\<open>list.index\<close> on an absent element\<close>
  | IndexError nat                \<comment> \<open>a list subscript out of range\<close>
  | NoStrokeData int              \<comment> \<open>no stroke data for a primary key\<close>

subsection \<open>Python slices\<close>

text \<open>\<^verbatim>\<open>xs[i:]\<close> and \<^verbatim>\<open>xs[:i]\<close>: a negative bound counts from the end, and both clamp.\<close>

definition slice_from :: "'a list \<Rightarrow> int \<Rightarrow> 'a list" where
  "slice_from xs i = (if 0 \<le> i then drop (nat i) xs else drop (length xs - nat (- i)) xs)"

definition slice_to :: "'a list \<Rightarrow> int \<Rightarrow> 'a list" where
  "slice_to xs i = (if 0 \<le> i then take (nat i) xs else take (length xs - nat (- i)) xs)"

subsection \<open>Data of the loader\<close>

text \<open>
  \<^verbatim>\<open>st.Transformation\<close> and \<^verbatim>\<open>st.Negation\<close> are declared outside the modelled files; the
  records hold the fields the loader reads.
\<close>

record transformation =
  is_rotation :: bool
  angle :: real

record negation =
  scale_factor :: real
  vert_angle :: real
  x_offset :: real
  y_offset :: real

text \<open>
  One entry of \<^verbatim>\<open>primary_keys\<close>: the primary key of the sample, the transformations to
  apply, the optional negation with the id of the slash, and the optional augmentation seed.
\<close>

type_synonym sample = "int \<times> transformation list \<times> (negation option \<times> int) \<times> nat option"

type_synonym path = "string \<times> transformation list \<times> negation option"

text \<open>The queries of \<^verbatim>\<open>sr.SymbolData\<close> that the loader calls.\<close>

record symbol_data =
  leaders :: "string list"
  get_similarity_group :: "string \<Rightarrow> string list"
  all_symbols_to_symbol :: "string \<Rightarrow> string list"
  all_paths_to_symbol :: "string \<Rightarrow> path list"

text \<open>
  The arguments of \<^verbatim>\<open>StrokeDataset.__init__\<close> that decide the record lists. The table
  \<^verbatim>\<open>samples\<close> of the database is the list of its rows \<open>(id, key)\<close> in the order in which
  the cursor yields them; the fitted label encoder is the partial map of its classes.
\<close>

record init_args =
  db :: "(int \<times> string) list"
  symbols :: symbol_data
  label_encoder :: "string \<Rightarrow> nat option"
  random_seed :: nat
  validation_split :: real
  train :: bool
  sample_limit :: "int option"
  random_augmentation :: bool
  debug_single_sample_only :: bool

subsection \<open>\<^verbatim>\<open>load_primary_keys\<close>\<close>

text \<open>
  \<^verbatim>\<open>SELECT id FROM samples WHERE key IN (...)\<close>, with \<^verbatim>\<open>LIMIT 1\<close> in debug mode. The
  rows \<^verbatim>\<open>(id,)\<close> are modelled by their only component.
\<close>

definition fetch_ids :: "init_args \<Rightarrow> string list \<Rightarrow> int list" where
  "fetch_ids a symbol_keys =
     (let ids = map fst (filter (\<lambda>row. snd row \<in> set symbol_keys) (db a))
      in if debug_single_sample_only a then take 1 ids else ids)"

definition load_primary_keys :: "init_args \<Rightarrow> string list \<Rightarrow> error + int list" where
  "load_primary_keys a symbol_keys =
     (let cursor_samples = fetch_ids a symbol_keys in
      if length cursor_samples = 1 then Inr cursor_samples
      else if \<not> validation_split a < 0.5 then Inl SplitAssertion
      else
        let split_idx = \<lceil>real (length cursor_samples) * validation_split a\<rceil> in
        if train a then Inr (slice_from cursor_samples split_idx)
        else Inr (slice_to cursor_samples split_idx))"

subsection \<open>\<^verbatim>\<open>augmentation_amount\<close>\<close>

text \<open>\<^verbatim>\<open>int(x)\<close> on a float truncates towards zero.\<close>

definition py_int :: "real \<Rightarrow> int" where
  "py_int x = (if 0 \<le> x then \<lfloor>x\<rfloor> else \<lceil>x\<rceil>)"

definition augmentation_factor :: "int \<Rightarrow> real \<Rightarrow> real \<Rightarrow> real" where
  "augmentation_factor real_data_count max_factor min_factor =
     (let power_base = 1.2 :: real;
          stretch = 0.05 :: real;
          nominator = - 2 * (max_factor - min_factor);
          denominator = 1 + power_base powr (- stretch * real_of_int real_data_count);
          offset = min_factor - nominator
      in nominator / denominator + offset)"

definition augmentation_amount :: "int \<Rightarrow> real \<Rightarrow> real \<Rightarrow> int" where
  "augmentation_amount real_data_count max_factor min_factor =
     py_int (augmentation_factor real_data_count max_factor min_factor * real_of_int real_data_count)"

subsection \<open>The generator of \<^verbatim>\<open>random\<close>\<close>

text \<open>
  The loader draws from the global generator of Python's \<^verbatim>\<open>random\<close> module.
  \<^verbatim>\<open>random.seed(s)\<close> is \<open>seed_state s\<close>; \<^verbatim>\<open>choice\<close> and \<^verbatim>\<open>randint\<close> both go through
  \<^verbatim>\<open>_randbelow(n)\<close>, which returns a number below \<open>n\<close> and advances the state.
\<close>

record 'g py_random =
  seed_state :: "nat \<Rightarrow> 'g"
  randbelow :: "'g \<Rightarrow> nat \<Rightarrow> nat \<times> 'g"

definition randint :: "'g py_random \<Rightarrow> 'g \<Rightarrow> nat \<Rightarrow> nat \<Rightarrow> nat \<times> 'g" where
  "randint R g lo hi = (let (r, g') = randbelow R g (hi - lo + 1) in (lo + r, g'))"

definition choice :: "'g py_random \<Rightarrow> 'g \<Rightarrow> 'a list \<Rightarrow> 'a \<times> 'g" where
  "choice R g seq = (let (i, g') = randbelow R g (length seq) in (seq ! i, g'))"

subsection \<open>\<^verbatim>\<open>StrokeDataset.__init__\<close>\<close>

text \<open>
  \<^verbatim>\<open>zip(load_primary_keys(current_key), negation_cycle)\<close>: the cycle over the slash rows
  \<open>slashes\<close> is the number \<open>pos\<close> of items drawn from it so far. For every row one item is
  drawn; a cycle over no rows is exhausted at once, which ends the zip.
\<close>

fun zip_cycle :: "int list \<Rightarrow> int list \<Rightarrow> nat \<Rightarrow> (int \<times> int) list \<times> nat" where
  "zip_cycle [] slashes pos = ([], pos)"
| "zip_cycle (row # rows) slashes pos =
     (if slashes = [] then ([], pos)
      else
        let (pairs, pos') = zip_cycle rows slashes (Suc pos)
        in ((row, slashes ! (pos mod length slashes)) # pairs, pos'))"

text \<open>
  The loop over \<^verbatim>\<open>all_paths_to_symbol(symbol_key)\<close>. The four counters for the log line
  and \<^verbatim>\<open>distribution_stats\<close> do not reach the record lists and are left out.
\<close>

fun extend_paths ::
  "init_args \<Rightarrow> int list \<Rightarrow> path list \<Rightarrow> sample list \<Rightarrow> nat \<Rightarrow> error + (sample list \<times> nat)" where
  "extend_paths a slashes [] samples pos = Inr (samples, pos)"
| "extend_paths a slashes ((current_key, transformations, negation) # paths) samples pos =
     (case load_primary_keys a [current_key] of
        Inl e \<Rightarrow> Inl e
      | Inr rows \<Rightarrow>
          let (pairs, pos') = zip_cycle rows slashes pos
          in extend_paths a slashes paths
               (samples @ map (\<lambda>(row, slash_id). (row, transformations, (negation, slash_id), None)) pairs)
               pos')"

text \<open>\<^verbatim>\<open>sum(len(load_primary_keys(ancestor)) for ancestor in ...)\<close>\<close>

fun real_data_count :: "init_args \<Rightarrow> string list \<Rightarrow> error + nat" where
  "real_data_count a [] = Inr 0"
| "real_data_count a (ancestor # ancestors) =
     (case load_primary_keys a [ancestor] of
        Inl e \<Rightarrow> Inl e
      | Inr rows \<Rightarrow>
          (case real_data_count a ancestors of
             Inl e \<Rightarrow> Inl e
           | Inr n \<Rightarrow> Inr (length rows + n)))"

text \<open>The augmentation loop: \<open>n\<close> rounds, each choosing from the list as grown so far.\<close>

fun augment :: "'g py_random \<Rightarrow> nat \<Rightarrow> sample list \<Rightarrow> 'g \<Rightarrow> sample list \<times> 'g" where
  "augment R 0 samples g = (samples, g)"
| "augment R (Suc n) samples g =
     (let ((symbol, transformations, negation_tuple, _), g1) = choice R g samples;
          (seed, g2) = randint R g1 0 (2 ^ 32 - 1)
      in augment R n (samples @ [(symbol, transformations, negation_tuple, Some seed)]) g2)"

text \<open>The body of the loop over the leaders, up to the truncated list \<^verbatim>\<open>samples\<close>.\<close>

definition leader_samples ::
  "'g py_random \<Rightarrow> init_args \<Rightarrow> int list \<Rightarrow> string \<Rightarrow> nat \<Rightarrow> 'g \<Rightarrow> error + (sample list \<times> nat \<times> 'g)" where
  "leader_samples R a slashes symbol_key pos g =
     (case real_data_count a (all_symbols_to_symbol (symbols a) symbol_key) of
        Inl e \<Rightarrow> Inl e
      | Inr real_count \<Rightarrow>
          (case extend_paths a slashes (all_paths_to_symbol (symbols a) symbol_key) [] pos of
             Inl e \<Rightarrow> Inl e
           | Inr (samples, pos') \<Rightarrow>
               if samples = [] then Inl (NoSamples symbol_key)
               else
                 let (samples1, g') =
                       (if random_augmentation a
                        then augment R (nat (augmentation_amount (int real_count) 10 0.2)) samples g
                        else (samples, g));
                     samples2 =
                       (case sample_limit a of
                          None \<Rightarrow> samples1
                        | Some limit \<Rightarrow> slice_to samples1 limit)
                 in Inr (samples2, pos', g')))"

text \<open>
  The loop over \<^verbatim>\<open>symbol_data.leaders\<close>. Its state is the two lists built so far, the
  position of the cycle and the state of the generator.
\<close>

fun load_leaders ::
  "'g py_random \<Rightarrow> init_args \<Rightarrow> int list \<Rightarrow> string list \<Rightarrow> sample list \<times> string list \<Rightarrow> nat \<Rightarrow> 'g \<Rightarrow>
     error + ((sample list \<times> string list) \<times> nat \<times> 'g)" where
  "load_leaders R a slashes [] acc pos g = Inr (acc, pos, g)"
| "load_leaders R a slashes (symbol_key # rest) (primary_keys, symbol_keys) pos g =
     (case leader_samples R a slashes symbol_key pos g of
        Inl e \<Rightarrow> Inl e
      | Inr (samples, pos', g') \<Rightarrow>
          load_leaders R a slashes rest
            (primary_keys @ samples, symbol_keys @ replicate (length samples) symbol_key) pos' g')"

text \<open>\<^verbatim>\<open>label_encoder.transform\<close> fails on a label the encoder was not fitted on.\<close>

fun transform :: "(string \<Rightarrow> nat option) \<Rightarrow> string list \<Rightarrow> error + nat list" where
  "transform enc [] = Inr []"
| "transform enc (label # labels) =
     (case enc label of
        None \<Rightarrow> Inl (UnseenLabel label)
      | Some c \<Rightarrow>
          (case transform enc labels of
             Inl e \<Rightarrow> Inl e
           | Inr cs \<Rightarrow> Inr (c # cs)))"

record dataset =
  primary_keys :: "sample list"
  symbol_keys :: "string list"
  encoded_labels :: "nat list"

definition vertical_line :: string where
  "vertical_line = ''latex2e-OT1-|''"

definition StrokeDataset_init :: "'g py_random \<Rightarrow> init_args \<Rightarrow> error + dataset" where
  "StrokeDataset_init R a =
     (let g = seed_state R (random_seed a);
          vertical_line_keys = get_similarity_group (symbols a) vertical_line
      in case load_primary_keys a vertical_line_keys of
           Inl e \<Rightarrow> Inl e
         | Inr slashes \<Rightarrow>
             (case load_leaders R a slashes (leaders (symbols a)) ([], []) 0 g of
                Inl e \<Rightarrow> Inl e
              | Inr ((pkeys, skeys), pos, g') \<Rightarrow>
                  (case transform (label_encoder a) skeys of
                     Inl e \<Rightarrow> Inl e
                   | Inr labels \<Rightarrow>
                       Inr \<lparr>primary_keys = pkeys, symbol_keys = skeys, encoded_labels = labels\<rparr>)))"

subsection \<open>\<^verbatim>\<open>range_for_symbol\<close>\<close>

text \<open>\<^verbatim>\<open>list.index\<close>: the first position of an element, or a \<^verbatim>\<open>ValueError\<close>.\<close>

fun index_of :: "'a list \<Rightarrow> 'a \<Rightarrow> nat option" where
  "index_of [] y = None"
| "index_of (x # xs) y =
     (if x = y then Some 0 else (case index_of xs y of None \<Rightarrow> None | Some i \<Rightarrow> Some (Suc i)))"

text \<open>The result \<^verbatim>\<open>range(start, end)\<close> is the list of its indices.\<close>

definition range_for_symbol :: "dataset \<Rightarrow> string \<Rightarrow> error + nat list" where
  "range_for_symbol d symbol =
     (case index_of (symbol_keys d) symbol of
        None \<Rightarrow> Inl (NotInList symbol)
      | Some start \<Rightarrow>
          (case index_of (rev (symbol_keys d)) symbol of
             None \<Rightarrow> Inl (NotInList symbol)
           | Some r \<Rightarrow> Inr [start ..< length (symbol_keys d) - r]))"

subsection \<open>\<^verbatim>\<open>load_transformed_strokes\<close>\<close>

text \<open>
  The matrices of \<^verbatim>\<open>image_gen\<close> are kept symbolic: a value of \<open>matrix\<close> names the
  constructor that was called and its arguments. What \<^verbatim>\<open>ig.apply_transformations\<close> and
  \<^verbatim>\<open>sp.rescale_and_center_viewport\<close> compute is a parameter; both are taken to return a new
  list and to leave their argument alone. \<^verbatim>\<open>np.random.uniform\<close> draws from the global
  generator of numpy, whose state \<open>'h\<close> is separate from the one of \<^verbatim>\<open>random\<close>.
\<close>

datatype matrix =
    rotation_matrix real
  | reflection_matrix real
  | scale_matrix real real
  | skew_matrix real real
  | translation_matrix real real real

type_synonym strokes = "(real \<times> real) list list"

record 'h rendering =
  np_uniform :: "'h \<Rightarrow> real \<Rightarrow> real \<Rightarrow> real \<times> 'h"
  apply_transformations :: "strokes \<Rightarrow> matrix list \<Rightarrow> strokes"
  rescale_and_center_viewport :: "strokes \<Rightarrow> real \<Rightarrow> real \<Rightarrow> strokes"

text \<open>
  What a call reads and writes besides its arguments: the states of the two generators,
  the stroke cache (when the dataset has one) and the stroke column of the database.
\<close>

record ('g, 'h) world =
  py_rng :: 'g
  np_rng :: 'h
  stroke_cache :: "(int \<Rightarrow> strokes option) option"
  db_strokes :: "int \<Rightarrow> strokes option"

definition load_stroke_data :: "('g, 'h) world \<Rightarrow> int \<Rightarrow> error + strokes" where
  "load_stroke_data w primary_key =
     (case stroke_cache w of
        Some cache \<Rightarrow>
          (case cache primary_key of None \<Rightarrow> Inl (NoStrokeData primary_key) | Some s \<Rightarrow> Inr s)
      | None \<Rightarrow>
          (case db_strokes w primary_key of None \<Rightarrow> Inl (NoStrokeData primary_key) | Some s \<Rightarrow> Inr s))"

text \<open>The matrices of the required transformations, in their order.\<close>

definition required_matrix :: "transformation \<Rightarrow> matrix" where
  "required_matrix t =
     (if is_rotation t then rotation_matrix (angle t) else reflection_matrix (angle t))"

text \<open>
  The random augmentation: the matrices it appends and the generator states it leaves.
  \<^verbatim>\<open>random.seed\<close> replaces the state of \<^verbatim>\<open>random\<close>; the parameters are drawn from numpy.
\<close>

definition augmentation_matrix ::
  "'g py_random \<Rightarrow> 'h rendering \<Rightarrow> nat option \<Rightarrow> ('g, 'h) world \<Rightarrow> matrix list \<times> ('g, 'h) world" where
  "augmentation_matrix R G random_augmentation_seed w =
     (case random_augmentation_seed of
        None \<Rightarrow> ([], w)
      | Some s \<Rightarrow>
          let (operation, g) = randint R (seed_state R s) 0 2 in
          if operation = 0 then
            let (r, h1) = np_uniform G (np_rng w) (- 5) 5
            in ([rotation_matrix r], w\<lparr>py_rng := g, np_rng := h1\<rparr>)
          else if operation = 1 then
            let (x, h1) = np_uniform G (np_rng w) 0.9 1;
                (y, h2) = np_uniform G h1 0.9 1
            in ([scale_matrix x y], w\<lparr>py_rng := g, np_rng := h2\<rparr>)
          else if operation = 2 then
            let (x, h1) = np_uniform G (np_rng w) (- 0.1) 0.1;
                (y, h2) = np_uniform G h1 (- 0.1) 0.1
            in ([skew_matrix x y], w\<lparr>py_rng := g, np_rng := h2\<rparr>)
          else ([], w\<lparr>py_rng := g\<rparr>))"

definition negation_matrices :: "negation \<Rightarrow> matrix list" where
  "negation_matrices n =
     [scale_matrix (scale_factor n) (scale_factor n),
      rotation_matrix (vert_angle n),
      translation_matrix (- x_offset n) (- y_offset n) 1000]"

text \<open>
  \<^verbatim>\<open>stroke_data += negation_stroke_data\<close> extends the list in place. When no matrix was
  applied and the strokes came from the cache, that list is the cached one, so the entry
  of the cache grows; in every other case the list is a fresh one.
\<close>

definition load_transformed_strokes ::
  "'g py_random \<Rightarrow> 'h rendering \<Rightarrow> dataset \<Rightarrow> nat \<Rightarrow> ('g, 'h) world \<Rightarrow>
     error + ((strokes \<times> string) \<times> ('g, 'h) world)" where
  "load_transformed_strokes R G d idx w =
     (if length (primary_keys d) \<le> idx then Inl (IndexError idx)
      else
        let (primary_key, required_transforms, (negation, slash_id), random_augmentation_seed) =
              primary_keys d ! idx
        in case load_stroke_data w primary_key of
             Inl e \<Rightarrow> Inl e
           | Inr source \<Rightarrow>
               let (extra, w1) = augmentation_matrix R G random_augmentation_seed w;
                   trans_mats = map required_matrix required_transforms @ extra;
                   stroke_data =
                     (if trans_mats \<noteq> [] then apply_transformations G source trans_mats else source)
               in case
                    (case negation of
                       None \<Rightarrow> Inr (stroke_data, w1)
                     | Some n \<Rightarrow>
                         (case load_stroke_data w1 slash_id of
                            Inl e \<Rightarrow> Inl e
                          | Inr negation_stroke_data \<Rightarrow>
                              let overlay = apply_transformations G negation_stroke_data (negation_matrices n);
                                  joined = stroke_data @ overlay
                              in Inr (joined,
                                   (case stroke_cache w1 of
                                      Some cache \<Rightarrow>
                                        if trans_mats = []
                                        then w1\<lparr>stroke_cache := Some (cache(primary_key \<mapsto> joined))\<rparr>
                                        else w1
                                    | None \<Rightarrow> w1))))
                  of
                    Inl e \<Rightarrow> Inl e
                  | Inr (stroke_data2, w2) \<Rightarrow>
                      if length (symbol_keys d) \<le> idx then Inl (IndexError idx)
                      else Inr ((rescale_and_center_viewport G stroke_data2 1000 1000, symbol_keys d ! idx), w2))"

subsection \<open>\<^verbatim>\<open>test_similar_lists_disjunct\<close>\<close>

text \<open>
  A metadata file is its path and its lines, each line the list of keys that
  \<^verbatim>\<open>line.strip().split()\<close> yields. \<^verbatim>\<open>re.findall(r"\S+", file.read_text())\<close> cuts the
  same text at the same white space, so the keys of the file are the keys of its lines, in order.
\<close>

type_synonym metadata_file = "string \<times> string list list"

datatype failure =
    ListedTwice string string "string list"       \<comment> \<open>symbol, file, line\<close>
  | LineTwice "string list" string                \<comment> \<open>line, file\<close>
  | SubsetOf nat nat string                       \<comment> \<open>line numbers \<open>i\<close> and \<open>j\<close>, file\<close>
  | ShareSymbols nat nat string                   \<comment> \<open>line numbers \<open>i\<close> and \<open>j\<close>, file\<close>
  | DuplicateKeys string "string list"            \<comment> \<open>file, the repeated keys\<close>
  | KeysInAnotherFile string "string set"         \<comment> \<open>file, the intersection\<close>

fun line_set :: "string \<Rightarrow> string list \<Rightarrow> string list \<Rightarrow> string set \<Rightarrow> failure + string set" where
  "line_set file line [] line_symbol_set = Inr line_symbol_set"
| "line_set file line (s # rest) line_symbol_set =
     (if s \<in> line_symbol_set then Inl (ListedTwice s file line)
      else line_set file line rest (insert s line_symbol_set))"

fun read_lines :: "string \<Rightarrow> string list list \<Rightarrow> string set list \<Rightarrow> failure + string set list" where
  "read_lines file [] line_symbols = Inr line_symbols"
| "read_lines file (line # rest) line_symbols =
     (case line_set file line line {} of
        Inl e \<Rightarrow> Inl e
      | Inr line_symbol_set \<Rightarrow>
          if line_symbol_set \<in> set line_symbols then Inl (LineTwice line file)
          else read_lines file rest (line_symbols @ [line_symbol_set]))"

text \<open>
  The two nested loops over \<^verbatim>\<open>enumerate(line_symbols, 1)\<close>: the pairs in the order in
  which the loops visit them, and the first pair with \<open>i \<noteq> j\<close> that trips the assertion.
\<close>

definition line_pairs :: "string set list \<Rightarrow> ((nat \<times> string set) \<times> (nat \<times> string set)) list" where
  "line_pairs line_symbols =
     List.product (zip [1 ..< Suc (length line_symbols)] line_symbols)
                  (zip [1 ..< Suc (length line_symbols)] line_symbols)"

definition first_subset :: "string set list \<Rightarrow> (nat \<times> nat) option" where
  "first_subset line_symbols =
     map_option (\<lambda>((i, line1), (j, line2)). (i, j))
       (find (\<lambda>((i, line1), (j, line2)). i \<noteq> j \<and> line1 \<subseteq> line2) (line_pairs line_symbols))"

definition first_shared :: "string set list \<Rightarrow> (nat \<times> nat) option" where
  "first_shared line_symbols =
     map_option (\<lambda>((i, line1), (j, line2)). (i, j))
       (find (\<lambda>((i, line1), (j, line2)). i \<noteq> j \<and> line1 \<inter> line2 \<noteq> {}) (line_pairs line_symbols))"

definition check_file :: "metadata_file \<Rightarrow> failure + unit" where
  "check_file f =
     (case read_lines (fst f) (snd f) [] of
        Inl e \<Rightarrow> Inl e
      | Inr line_symbols \<Rightarrow>
          (case first_subset line_symbols of
             Some (i, j) \<Rightarrow> Inl (SubsetOf i j (fst f))
           | None \<Rightarrow>
               (case first_shared line_symbols of
                  Some (i, j) \<Rightarrow> Inl (ShareSymbols i j (fst f))
                | None \<Rightarrow> Inr ())))"

fun check_files :: "metadata_file list \<Rightarrow> failure + unit" where
  "check_files [] = Inr ()"
| "check_files (f # files) =
     (case check_file f of Inl e \<Rightarrow> Inl e | Inr _ \<Rightarrow> check_files files)"

text \<open>
  \<^verbatim>\<open>for key in key_set: keys.remove(key)\<close> takes the first occurrence of every distinct key
  out of the list; what is left does not depend on the order in which the set is visited.
\<close>

fun check_keys :: "metadata_file list \<Rightarrow> string set \<Rightarrow> failure + unit" where
  "check_keys [] global_keys = Inr ()"
| "check_keys (f # files) global_keys =
     (let keys = concat (snd f);
          key_set = set keys;
          left = fold remove1 (remdups keys) keys
      in if left \<noteq> [] then Inl (DuplicateKeys (fst f) left)
         else
           let intersection = global_keys \<inter> key_set
           in if intersection \<noteq> {} then Inl (KeysInAnotherFile (fst f) intersection)
              else check_keys files (global_keys \<union> key_set))"

definition test_similar_lists_disjunct :: "metadata_file list \<Rightarrow> failure + unit" where
  "test_similar_lists_disjunct files =
     (case check_files files of Inl e \<Rightarrow> Inl e | Inr _ \<Rightarrow> check_keys files {})"

subsection \<open>\<^verbatim>\<open>load_dict_to_attrs_safely\<close>\<close>


type_synonym exn = "string \<times> string"






definition skipped :: "string list option \<Rightarrow> string \<Rightarrow> bool" where
  "skipped skip_attrs attribute =
     (case skip_attrs of None \<Rightarrow> False | Some l \<Rightarrow> l \<noteq> [] \<and> attribute \<in> set l)"




section \<open>Notions used in the statements\<close>

text \<open>The components of an entry of \<^verbatim>\<open>primary_keys\<close>.\<close>

definition sample_negation :: "sample \<Rightarrow> negation option" where
  "sample_negation r = (case r of (primary_key, transformations, (negation, slash_id), seed) \<Rightarrow> negation)"

definition sample_slash :: "sample \<Rightarrow> int" where
  "sample_slash r = (case r of (primary_key, transformations, (negation, slash_id), seed) \<Rightarrow> slash_id)"

definition sample_seed :: "sample \<Rightarrow> nat option" where
  "sample_seed r = (case r of (primary_key, transformations, (negation, slash_id), seed) \<Rightarrow> seed)"

text \<open>
  The records that come from the derivation paths carry no seed; the augmentation
  records carry one.
\<close>

definition path_derived :: "sample list \<Rightarrow> sample list" where
  "path_derived rs = filter (\<lambda>r. sample_seed r = None) rs"

text \<open>
  A leader whose derivation paths expand to no sample at all: there is no slash to pair
  with, or every source of every path has no row in the view.
\<close>

definition yields_nothing :: "init_args \<Rightarrow> int list \<Rightarrow> string \<Rightarrow> bool" where
  "yields_nothing a slashes symbol_key =
     (slashes = [] \<or>
      list_all (\<lambda>p. load_primary_keys a [fst p] = Inr []) (all_paths_to_symbol (symbols a) symbol_key))"

text \<open>What the loop over the paths appends.\<close>

definition appended_by_paths :: "int list \<Rightarrow> nat \<Rightarrow> sample list \<Rightarrow> nat \<Rightarrow> bool" where
  "appended_by_paths slashes pos new pos' \<longleftrightarrow>
     (\<forall>r \<in> set new. sample_seed r = None) \<and>
     (slashes = [] \<longrightarrow> new = [] \<and> pos' = pos) \<and>
     (slashes \<noteq> [] \<longrightarrow> pos' = pos + length new) \<and>
     (\<forall>i < length new. sample_slash (new ! i) = slashes ! ((pos + i) mod length slashes))"

text \<open>The list of a leader before the cap: the path records, then the augmentation.\<close>

definition uncapped ::
  "'g py_random \<Rightarrow> init_args \<Rightarrow> nat \<Rightarrow> sample list \<Rightarrow> 'g \<Rightarrow> sample list \<times> 'g" where
  "uncapped R a real_count derived g =
     (if random_augmentation a
      then augment R (nat (augmentation_amount (int real_count) 10 0.2)) derived g
      else (derived, g))"

text \<open>The labels of the leaders \<open>ls\<close>, each repeated as often as \<open>counts\<close> says.\<close>

definition blocks :: "string list \<Rightarrow> nat list \<Rightarrow> string list" where
  "blocks ls counts = concat (map (\<lambda>(s, c). replicate c s) (zip ls counts))"

definition cycle_inv :: "int list \<Rightarrow> sample list \<Rightarrow> nat \<Rightarrow> bool" where
  "cycle_inv slashes rs pos \<longleftrightarrow>
     (slashes \<noteq> [] \<longrightarrow> pos = length (path_derived rs)) \<and>
     (\<forall>i < length (path_derived rs).
        sample_slash (path_derived rs ! i) = slashes ! (i mod length slashes))"

text \<open>The records that carry a negation.\<close>

definition negation_tagged :: "sample list \<Rightarrow> sample list" where
  "negation_tagged rs = filter (\<lambda>r. sample_negation r \<noteq> None) rs"

text \<open>
  What a failure of the sanity check says about the files: the symbol that a line lists
  twice, the line that repeats an earlier line, the numbers (from 1) of two lines of which
  the first is a subset of the second or which share a symbol, the keys that occur more
  than once in a file, the keys of a file that an earlier file has.
\<close>

fun located :: "metadata_file list \<Rightarrow> failure \<Rightarrow> bool" where
  "located files (ListedTwice s file line) =
     (\<exists>lines. (file, lines) \<in> set files \<and> line \<in> set lines \<and> 2 \<le> count_list line s)"
| "located files (LineTwice line file) =
     (\<exists>lines pre post. (file, lines) \<in> set files \<and> lines = pre @ line # post \<and>
        set line \<in> set ` set pre)"
| "located files (SubsetOf i j file) =
     (\<exists>lines. (file, lines) \<in> set files \<and> 0 < i \<and> i \<le> length lines \<and> 0 < j \<and> j \<le> length lines \<and>
        i \<noteq> j \<and> set (lines ! (i - 1)) \<subseteq> set (lines ! (j - 1)))"
| "located files (ShareSymbols i j file) =
     (\<exists>lines. (file, lines) \<in> set files \<and> 0 < i \<and> i \<le> length lines \<and> 0 < j \<and> j \<le> length lines \<and>
        i \<noteq> j \<and> set (lines ! (i - 1)) \<inter> set (lines ! (j - 1)) \<noteq> {})"
| "located files (DuplicateKeys file ks) =
     (\<exists>lines. (file, lines) \<in> set files \<and> ks \<noteq> [] \<and>
        (\<forall>k \<in> set ks. 2 \<le> count_list (concat lines) k))"
| "located files (KeysInAnotherFile file S) =
     (\<exists>pre lines post. files = pre @ (file, lines) # post \<and>
        S = (\<Union>g \<in> set pre. set (concat (snd g))) \<inter> set (concat lines) \<and> S \<noteq> {})"

text \<open>The symbols that a failure carries.\<close>

fun named_symbols :: "failure \<Rightarrow> string set" where
  "named_symbols (ListedTwice s file line) = insert s (set line)"
| "named_symbols (LineTwice line file) = set line"
| "named_symbols (SubsetOf i j file) = {}"
| "named_symbols (ShareSymbols i j file) = {}"
| "named_symbols (DuplicateKeys file ks) = set ks"
| "named_symbols (KeysInAnotherFile file S) = S"

text \<open>
  What the loop of \<^verbatim>\<open>load_dict_to_attrs_safely\<close> does with one attribute: nothing, when
  the attribute is skipped or absent from the data; otherwise the coercion, which fails
  with an exception or gives the value to set.
\<close>

definition attempt ::
  "('ty \<Rightarrow> 'v \<Rightarrow> exn + 'v) \<Rightarrow> (string \<Rightarrow> 'v option) \<Rightarrow> string list option \<Rightarrow> string \<Rightarrow> 'ty \<Rightarrow>
     (exn + 'v) option" where
  "attempt coerce data skip_attrs attribute expected_type =
     (if skipped skip_attrs attribute then None
      else case data attribute of None \<Rightarrow> None | Some v \<Rightarrow> Some (coerce expected_type v))"


section \<open>Concrete inputs\<close>




text \<open>A generator whose state counts its draws and whose draw is the state reduced below \<open>n\<close>.\<close>

definition counter_random :: "nat py_random" where
  "counter_random = \<lparr>seed_state = (\<lambda>s. s), randbelow = (\<lambda>g n. (g mod n, Suc g))\<rparr>"

definition slash_recipe :: negation where
  "slash_recipe = \<lparr>scale_factor = 1, vert_angle = 20, x_offset = 3, y_offset = 4\<rparr>"

text \<open>
  Three leaders: \<open>A\<close> and \<open>C\<close> are rendered from their own samples, \<open>D\<close> is the negation
  of \<open>A\<close>. The store has one sample of \<open>A\<close>, one of \<open>C\<close> and three vertical lines.
\<close>

definition demo_symbols :: symbol_data where
  "demo_symbols =
     \<lparr>leaders = [''A'', ''D'', ''C''],
      get_similarity_group = (\<lambda>s. [s]),
      all_symbols_to_symbol = (\<lambda>s. if s = ''D'' then [''A''] else [s]),
      all_paths_to_symbol =
        (\<lambda>s. if s = ''D'' then [(''A'', [], Some slash_recipe)] else [(s, [], None)])\<rparr>"

definition demo_args :: init_args where
  "demo_args =
     \<lparr>db = [(1, ''A''), (3, ''C''), (10, vertical_line), (11, vertical_line), (12, vertical_line)],
      symbols = demo_symbols,
      label_encoder =
        (\<lambda>s. if s = ''A'' then Some 0 else if s = ''C'' then Some 1
              else if s = ''D'' then Some 2 else None),
      random_seed = 0, validation_split = 1 / 10, train = True, sample_limit = None,
      random_augmentation = False, debug_single_sample_only = False\<rparr>"

definition demo_dataset :: dataset where
  "demo_dataset =
     \<lparr>primary_keys =
        [(1, [], (None, 11), None), (1, [], (Some slash_recipe, 12), None), (3, [], (None, 11), None)],
      symbol_keys = [''A'', ''D'', ''C''],
      encoded_labels = [0, 2, 1]\<rparr>"


text \<open>The same with random augmentation and a cap of three records per leader.\<close>

definition capped_args :: init_args where
  "capped_args = demo_args\<lparr>sample_limit := Some 3, random_augmentation := True\<rparr>"

text \<open>
  A stand-in for the helpers of \<^verbatim>\<open>image_gen\<close>, \<^verbatim>\<open>sketchpad\<close> and \<^verbatim>\<open>numpy.random\<close>, used
  only to evaluate on concrete inputs: each matrix acts on a point, the viewport is left
  as it is, and the numpy generator is a counter whose draw is a tenth of the interval
  times its last digit.
\<close>

fun act :: "matrix \<Rightarrow> real \<times> real \<Rightarrow> real \<times> real" where
  "act (rotation_matrix r) (x, y) = (x * cos r - y * sin r, x * sin r + y * cos r)"
| "act (reflection_matrix r) (x, y) = (x * cos (2 * r) + y * sin (2 * r), x * sin (2 * r) - y * cos (2 * r))"
| "act (scale_matrix a b) (x, y) = (a * x, b * y)"
| "act (skew_matrix a b) (x, y) = (x + a * y, y + b * x)"
| "act (translation_matrix a b c) (x, y) = (x + a, y + b)"

definition demo_rendering :: "nat rendering" where
  "demo_rendering =
     \<lparr>np_uniform = (\<lambda>h lo hi. (lo + (hi - lo) * (real (h mod 10) / 10), Suc h)),
      apply_transformations = (\<lambda>s ms. map (map (\<lambda>p. fold act ms p)) s),
      rescale_and_center_viewport = (\<lambda>s w h. s)\<rparr>"

definition demo_strokes :: "int \<Rightarrow> strokes option" where
  "demo_strokes k =
     (if k = 1 then Some [[(100, 200), (300, 400)]]
      else if k = 12 then Some [[(0, 0), (0, 10)]]
      else None)"

definition demo_world :: "nat \<Rightarrow> (nat, nat) world" where
  "demo_world h = \<lparr>py_rng = 0, np_rng = h, stroke_cache = None, db_strokes = demo_strokes\<rparr>"

text \<open>A dataset of one augmentation record with the seed 1.\<close>

definition jitter_dataset :: dataset where
  "jitter_dataset =
     \<lparr>primary_keys = [(1, [], (None, 11), Some 1)], symbol_keys = [''A''], encoded_labels = [0]\<rparr>"

text \<open>Two metadata files that pass the check, and one whose second line is part of its first.\<close>

definition good_files :: "metadata_file list" where
  "good_files = [(''similar.txt'', [[''a'', ''b''], [''c'']]), (''similar_2.txt'', [[''d'']])]"

definition subset_files :: "metadata_file list" where
  "subset_files = [(''similar.txt'', [[''a'', ''b''], [''a'']])]"







section \<open>Properties\<close>

subsection \<open>The validation split\<close>

lemma slice_to_from: "slice_to xs i @ slice_from xs i = xs"
  by (simp add: slice_to_def slice_from_def)

lemma slice_to_nonneg: "0 \<le> i \<Longrightarrow> slice_to xs i = take (nat i) xs"
  by (simp add: slice_to_def)










subsection \<open>The augmentation amount\<close>

lemma augmentation_factor_default:
  "augmentation_factor n 10 0.2 = 99 / 5 - (98 / 5) / (1 + (6 / 5) powr (- (real_of_int n / 20)))"
  by (simp add: augmentation_factor_def Let_def)

lemma decay_mono: "s \<le> t \<Longrightarrow> (6 / 5 :: real) powr (- t) \<le> (6 / 5) powr (- s)"
  by (rule powr_mono) simp_all

lemma decay_strict: "s < t \<Longrightarrow> (6 / 5 :: real) powr (- t) < (6 / 5) powr (- s)"
  by (rule powr_less_mono) simp_all


text \<open>The logistic curve as a function of the decaying power.\<close>

lemma curve_mono:
  fixes x y :: real
  assumes "0 < x" and "x \<le> y"
  shows "99 / 5 - (98 / 5) / (1 + x) \<le> 99 / 5 - (98 / 5) / (1 + y)"
proof -
  have "(98 / 5) / (1 + y) \<le> (98 / 5) / (1 + x)"
    using assms by (intro divide_left_mono) (simp_all add: add_pos_pos)
  then show ?thesis by linarith
qed

lemma curve_strict:
  fixes x y :: real
  assumes "0 < x" and "x < y"
  shows "99 / 5 - (98 / 5) / (1 + x) < 99 / 5 - (98 / 5) / (1 + y)"
proof -
  have "(98 / 5) / (1 + y) < (98 / 5) / (1 + x)"
    using assms by (intro divide_strict_left_mono) (simp_all add: add_pos_pos)
  then show ?thesis by linarith
qed

lemma curve_at_0: "99 / 5 - (98 / 5) / (1 + (0::real)) = 1 / 5"
  by simp

lemma curve_at_1: "99 / 5 - (98 / 5) / (1 + (1::real)) = 10"
  by simp

lemma curve_lower:
  fixes x :: real
  assumes "0 < x"
  shows "1 / 5 < 99 / 5 - (98 / 5) / (1 + x)"
proof -
  have "(98 / 5) / (1 + x) < (98 / 5) / 1"
    using assms by (intro divide_strict_left_mono) simp_all
  then show ?thesis by simp
qed



lemma factor_strict:
  assumes "m < n"
  shows "augmentation_factor n 10 0.2 < augmentation_factor m 10 0.2"
  unfolding augmentation_factor_default
  using assms by (intro curve_strict decay_strict) simp_all

lemma factor_lower: "1 / 5 < augmentation_factor n 10 0.2"
  unfolding augmentation_factor_default by (rule curve_lower) simp


lemma amount_floor:
  assumes "0 \<le> n"
  shows "augmentation_amount n 10 0.2 = \<lfloor>augmentation_factor n 10 0.2 * real_of_int n\<rfloor>"
proof -
  have "0 \<le> augmentation_factor n 10 0.2"
    using factor_lower [of n] by linarith
  then have "0 \<le> augmentation_factor n 10 0.2 * real_of_int n"
    using assms by simp
  then show ?thesis
    unfolding augmentation_amount_def py_int_def by (simp only: if_True)
qed


lemma amount_eq:
  assumes "0 \<le> n"
    and "real_of_int k \<le> augmentation_factor n 10 0.2 * real_of_int n"
    and "augmentation_factor n 10 0.2 * real_of_int n < real_of_int k + 1"
  shows "augmentation_amount n 10 0.2 = k"
  unfolding amount_floor [OF assms(1)] using assms(2,3) by (rule floor_unique)

lemma amount_1: "augmentation_amount 1 10 0.2 = 9"
proof -
  let ?x = "(6 / 5 :: real) powr (- (1 / 20))"
  have lo: "5 / 6 \<le> ?x"
    using decay_mono [of "1 / 20" 1] by (simp add: powr_minus)
  have hi: "?x < 1"
    using decay_strict [of 0 "1 / 20"] by simp
  have f: "augmentation_factor 1 10 0.2 = 99 / 5 - (98 / 5) / (1 + ?x)"
    unfolding augmentation_factor_default by simp
  have "99 / 5 - (98 / 5) / (1 + 5 / 6) \<le> 99 / 5 - (98 / 5) / (1 + ?x)"
    by (rule curve_mono [OF _ lo]) simp
  then have a: "9 \<le> augmentation_factor 1 10 0.2"
    unfolding f by simp
  have "99 / 5 - (98 / 5) / (1 + ?x) < 99 / 5 - (98 / 5) / (1 + 1)"
    by (rule curve_strict [OF _ hi]) simp
  then have b: "augmentation_factor 1 10 0.2 < 10"
    unfolding f by simp
  show ?thesis
    by (rule amount_eq) (use a b in simp_all)
qed



text \<open>From 2001 samples on, every count that is no multiple of 5 gets less than a fifth of it.\<close>

lemma power_beats_line: "100 \<le> k \<Longrightarrow> 1960 * (real k + 1) \<le> (6 / 5) ^ k"
proof (induction k rule: dec_induct)
  case base
  show ?case by (simp add: power_divide)
next
  case (step k)
  have "1960 * (real (Suc k) + 1) \<le> (6 / 5) * (1960 * (real k + 1))"
    using step.hyps(1) by simp
  also have "\<dots> \<le> (6 / 5) * (6 / 5) ^ k"
    using step.IH by simp
  finally show ?case by simp
qed

lemma curve_split:
  fixes y :: real
  assumes "0 < y"
  shows "99 / 5 - (98 / 5) / (1 + y) = 1 / 5 + (98 / 5) * (y / (1 + y))"
proof -
  define d where "d = 1 / (1 + y)"
  have nz: "1 + y \<noteq> 0" using assms by simp
  have a: "(98 / 5) / (1 + y) = (98 / 5) * d"
    by (simp add: d_def)
  have "y / (1 + y) + 1 / (1 + y) = (y + 1) / (1 + y)"
    by (simp only: add_divide_distrib)
  also have "\<dots> = 1"
    using nz by simp
  finally have b: "y / (1 + y) = 1 - d"
    by (simp add: d_def)
  show ?thesis
    unfolding a b by argo
qed

lemma amount_below_min_factor:
  assumes "2001 \<le> n" and "n mod 5 \<noteq> 0"
  shows "augmentation_amount n 10 0.2 = n div 5"
    and "real_of_int (augmentation_amount n 10 0.2) < 0.2 * real_of_int n"
proof -
  define k where "k = nat (n div 20)"
  let ?x = "(6 / 5 :: real) powr (- (real_of_int n / 20))"
  have n0: "0 \<le> n" using assms(1) by simp
  have k100: "100 \<le> k" using assms(1) by (simp add: k_def)
  have kn: "real k \<le> real_of_int n / 20"
    using n0 by (simp add: k_def)
  have nk: "real_of_int n < 20 * (real k + 1)"
  proof -
    have "n < 20 * (n div 20 + 1)" by presburger
    moreover have "int k = n div 20" using n0 by (simp add: k_def)
    ultimately have "n < 20 * (int k + 1)" by simp
    then have "real_of_int n < real_of_int (20 * (int k + 1))" by (simp only: of_int_less_iff)
    then show ?thesis by simp
  qed
  have "?x \<le> (6 / 5) powr (- real k)"
    using kn by (intro decay_mono)
  also have "\<dots> = 1 / (6 / 5) ^ k"
    by (simp add: powr_minus powr_realpow field_simps)
  finally have x_le: "?x \<le> 1 / (6 / 5) ^ k" .
  have big: "1960 * (real k + 1) \<le> (6 / 5) ^ k"
    by (rule power_beats_line [OF k100])
  have pos: "0 < (6 / 5 :: real) ^ k" by simp
  have "real_of_int n * ?x \<le> real_of_int n * (1 / (6 / 5) ^ k)"
    using x_le n0 by (intro mult_left_mono) simp_all
  also have "\<dots> < 20 * (real k + 1) / (6 / 5) ^ k"
    using nk pos by (simp add: divide_strict_right_mono)
  also have "\<dots> \<le> 20 * (real k + 1) / (1960 * (real k + 1))"
    using big by (intro divide_left_mono) simp_all
  also have "\<dots> = 1 / 98"
    by simp
  finally have nx: "real_of_int n * ?x < 1 / 98" .
  have x0: "0 < ?x" by simp
  have f: "augmentation_factor n 10 0.2 = 99 / 5 - (98 / 5) / (1 + ?x)"
    by (rule augmentation_factor_default)
  have "99 / 5 - (98 / 5) / (1 + ?x) = 1 / 5 + (98 / 5) * (?x / (1 + ?x))"
    by (rule curve_split [OF x0])
  also have "\<dots> \<le> 1 / 5 + (98 / 5) * ?x"
  proof -
    have "?x / (1 + ?x) \<le> ?x / 1"
      using x0 by (intro divide_left_mono) (simp_all add: add_pos_pos)
    then have "?x / (1 + ?x) \<le> ?x"
      by simp
    then have "(98 / 5) * (?x / (1 + ?x)) \<le> (98 / 5) * ?x"
      by (rule mult_left_mono) simp
    then show ?thesis by linarith
  qed
  finally have f_le: "augmentation_factor n 10 0.2 \<le> 1 / 5 + (98 / 5) * ?x"
    unfolding f .
  have "augmentation_factor n 10 0.2 * real_of_int n \<le> (1 / 5 + (98 / 5) * ?x) * real_of_int n"
    using f_le n0 by (intro mult_right_mono) simp_all
  also have "\<dots> = real_of_int n / 5 + (98 / 5) * (real_of_int n * ?x)"
    by (simp add: algebra_simps)
  also have "\<dots> < real_of_int n / 5 + 1 / 5"
    using nx by simp
  finally have up: "augmentation_factor n 10 0.2 * real_of_int n < real_of_int n / 5 + 1 / 5" .
  have lo: "real_of_int n / 5 < augmentation_factor n 10 0.2 * real_of_int n"
  proof -
    have "0 < real_of_int n" using assms(1) by simp
    then have "(1 / 5) * real_of_int n < augmentation_factor n 10 0.2 * real_of_int n"
      using factor_lower [of n] by (intro mult_strict_right_mono)
    then show ?thesis by simp
  qed
  have "0 \<le> n mod 5" "n mod 5 < 5" by simp_all
  with assms(2) have r: "1 \<le> n mod 5" "n mod 5 \<le> 4" by linarith+
  have n5: "n = 5 * (n div 5) + n mod 5" by simp
  have rn: "real_of_int n = 5 * real_of_int (n div 5) + real_of_int (n mod 5)"
    by (metis n5 of_int_add of_int_mult of_int_numeral)
  have r1: "1 \<le> real_of_int (n mod 5)" "real_of_int (n mod 5) \<le> 4"
    using r by simp_all
  show eq: "augmentation_amount n 10 0.2 = n div 5"
  proof (rule amount_eq [OF n0])
    show "real_of_int (n div 5) \<le> augmentation_factor n 10 0.2 * real_of_int n"
      using lo rn r1 by linarith
    show "augmentation_factor n 10 0.2 * real_of_int n < real_of_int (n div 5) + 1"
      using up rn r1 by linarith
  qed
  show "real_of_int (augmentation_amount n 10 0.2) < 0.2 * real_of_int n"
    unfolding eq using rn r1 by linarith
qed




subsection \<open>The records of a leader\<close>

lemma zip_cycle_no_slash: "zip_cycle rows [] pos = ([], pos)"
  by (cases rows) simp_all

lemma zip_cycle_pos: "slashes \<noteq> [] \<Longrightarrow> snd (zip_cycle rows slashes pos) = pos + length rows"
  by (induction rows arbitrary: pos) (simp_all add: split_beta)

lemma zip_cycle_length: "slashes \<noteq> [] \<Longrightarrow> length (fst (zip_cycle rows slashes pos)) = length rows"
  by (induction rows arbitrary: pos) (simp_all add: split_beta)

lemma zip_cycle_nth:
  "slashes \<noteq> [] \<Longrightarrow> i < length rows \<Longrightarrow>
   fst (zip_cycle rows slashes pos) ! i = (rows ! i, slashes ! ((pos + i) mod length slashes))"
proof (induction rows arbitrary: pos i)
  case Nil
  then show ?case by simp
next
  case (Cons row rows)
  show ?case
  proof (cases i)
    case 0
    with Cons.prems show ?thesis by (simp add: split_beta)
  next
    case (Suc j)
    with Cons.prems have "j < length rows" by simp
    from Cons.IH [OF Cons.prems(1) this, of "Suc pos"] Suc Cons.prems(1)
    show ?thesis by (simp add: split_beta)
  qed
qed

lemma extend_paths_appends:
  "extend_paths a slashes paths samples pos = Inr (res, pos') \<Longrightarrow>
   \<exists>new. res = samples @ new \<and> appended_by_paths slashes pos new pos'"
proof (induction paths arbitrary: samples pos)
  case Nil
  then show ?case by (simp add: appended_by_paths_def)
next
  case (Cons p paths)
  obtain current_key transformations negation where p: "p = (current_key, transformations, negation)"
    by (cases p)
  from Cons.prems p obtain rows where rows: "load_primary_keys a [current_key] = Inr rows"
    by (auto split: sum.splits)
  let ?pairs = "fst (zip_cycle rows slashes pos)"
  let ?mid = "snd (zip_cycle rows slashes pos)"
  let ?first = "map (\<lambda>(row, slash_id). (row, transformations, (negation, slash_id), None)) ?pairs"
  from Cons.prems p rows
  have "extend_paths a slashes paths (samples @ ?first) ?mid = Inr (res, pos')"
    by (simp add: split_beta)
  from Cons.IH [OF this] obtain new where new: "res = (samples @ ?first) @ new"
    and inv: "appended_by_paths slashes ?mid new pos'"
    by blast
  show ?case
  proof (cases "slashes = []")
    case True
    with new inv show ?thesis
      by (auto simp: appended_by_paths_def zip_cycle_no_slash)
  next
    case False
    have len: "length ?first = length rows"
      by (simp add: zip_cycle_length [OF False])
    have mid: "?mid = pos + length rows"
      by (rule zip_cycle_pos [OF False])
    have first_slash: "sample_slash (?first ! i) = slashes ! ((pos + i) mod length slashes)"
      if "i < length rows" for i
      using that zip_cycle_nth [OF False that, of pos]
      by (simp add: zip_cycle_length [OF False] sample_slash_def)
    have first_seed: "\<forall>r \<in> set ?first. sample_seed r = None"
      by (auto simp: sample_seed_def)
    have "appended_by_paths slashes pos (?first @ new) pos'"
      unfolding appended_by_paths_def
    proof (intro conjI)
      show "\<forall>r \<in> set (?first @ new). sample_seed r = None"
        using first_seed inv by (auto simp: appended_by_paths_def)
      show "slashes = [] \<longrightarrow> ?first @ new = [] \<and> pos' = pos"
        using False by simp
      show "slashes \<noteq> [] \<longrightarrow> pos' = pos + length (?first @ new)"
        using inv False mid len by (simp add: appended_by_paths_def)
      show "\<forall>i < length (?first @ new).
              sample_slash ((?first @ new) ! i) = slashes ! ((pos + i) mod length slashes)"
      proof (intro allI impI)
        fix i assume i: "i < length (?first @ new)"
        show "sample_slash ((?first @ new) ! i) = slashes ! ((pos + i) mod length slashes)"
        proof (cases "i < length rows")
          case True
          then show ?thesis using first_slash [OF True] len by (simp add: nth_append)
        next
          case False
          then have j: "i - length rows < length new" using i len by simp
          have "sample_slash (new ! (i - length rows))
                  = slashes ! ((?mid + (i - length rows)) mod length slashes)"
            using inv j by (simp add: appended_by_paths_def)
          moreover have "?mid + (i - length rows) = pos + i"
            using False mid by simp
          ultimately show ?thesis using False len by (simp add: nth_append)
        qed
      qed
    qed
    with new show ?thesis by auto
  qed
qed

lemma augment_appends:
  "augment R n samples g = (res, g') \<Longrightarrow>
   \<exists>aug. res = samples @ aug \<and> length aug = n \<and> (\<forall>r \<in> set aug. sample_seed r \<noteq> None)"
proof (induction n arbitrary: samples g)
  case 0
  then show ?case by simp
next
  case (Suc n)
  let ?c = "choice R g samples"
  let ?s = "randint R (snd ?c) 0 (2 ^ 32 - 1)"
  obtain symbol transformations negation_tuple old where c: "fst ?c = (symbol, transformations, negation_tuple, old)"
    by (cases "fst ?c")
  let ?r = "(symbol, transformations, negation_tuple, Some (fst ?s))"
  from Suc.prems c have "augment R n (samples @ [?r]) (snd ?s) = (res, g')"
    by (simp add: split_beta)
  from Suc.IH [OF this] obtain aug where "res = (samples @ [?r]) @ aug" "length aug = n"
    "\<forall>r \<in> set aug. sample_seed r \<noteq> None"
    by blast
  then have "res = samples @ (?r # aug) \<and> length (?r # aug) = Suc n \<and>
             (\<forall>r \<in> set (?r # aug). sample_seed r \<noteq> None)"
    by (simp add: sample_seed_def)
  then show ?case by blast
qed

lemma fetch_ids_limit: "fetch_ids (a\<lparr>sample_limit := l\<rparr>) ks = fetch_ids a ks"
  by (simp add: fetch_ids_def)

lemma load_primary_keys_limit: "load_primary_keys (a\<lparr>sample_limit := l\<rparr>) ks = load_primary_keys a ks"
  by (simp add: load_primary_keys_def fetch_ids_limit Let_def)

lemma extend_paths_limit:
  "extend_paths (a\<lparr>sample_limit := l\<rparr>) slashes paths samples pos = extend_paths a slashes paths samples pos"
  by (induction paths arbitrary: samples pos)
    (auto simp: load_primary_keys_limit split_beta split: sum.splits)

lemma real_data_count_limit:
  "real_data_count (a\<lparr>sample_limit := l\<rparr>) ancestors = real_data_count a ancestors"
  by (induction ancestors) (auto simp: load_primary_keys_limit split: sum.splits)

lemma uncapped_appends:
  "\<exists>aug. fst (uncapped R a n derived g) = derived @ aug \<and> (\<forall>r \<in> set aug. sample_seed r \<noteq> None) \<and>
         length aug = (if random_augmentation a then nat (augmentation_amount (int n) 10 0.2) else 0)"
proof (cases "random_augmentation a")
  case True
  obtain res g' where "augment R (nat (augmentation_amount (int n) 10 0.2)) derived g = (res, g')"
    by (cases "augment R (nat (augmentation_amount (int n) 10 0.2)) derived g")
  from augment_appends [OF this] this True show ?thesis
    by (auto simp: uncapped_def)
next
  case False
  then show ?thesis by (simp add: uncapped_def)
qed

lemma leader_samples_Inr:
  assumes "leader_samples R a slashes s pos g = Inr (samples, pos', g')"
  shows "\<exists>n derived.
    real_data_count a (all_symbols_to_symbol (symbols a) s) = Inr n \<and>
    extend_paths a slashes (all_paths_to_symbol (symbols a) s) [] pos = Inr (derived, pos') \<and>
    derived \<noteq> [] \<and> g' = snd (uncapped R a n derived g) \<and>
    samples = (case sample_limit a of None \<Rightarrow> fst (uncapped R a n derived g)
               | Some limit \<Rightarrow> slice_to (fst (uncapped R a n derived g)) limit)"
  using assms
  by (auto simp: leader_samples_def uncapped_def Let_def split_beta
      split: sum.splits if_splits option.splits)

lemma leader_samples_eq:
  assumes "real_data_count a (all_symbols_to_symbol (symbols a) s) = Inr n"
    and "extend_paths a slashes (all_paths_to_symbol (symbols a) s) [] pos = Inr (derived, pos')"
    and "derived \<noteq> []"
  shows "leader_samples R a slashes s pos g =
     Inr (case sample_limit a of None \<Rightarrow> fst (uncapped R a n derived g)
          | Some limit \<Rightarrow> slice_to (fst (uncapped R a n derived g)) limit,
          pos', snd (uncapped R a n derived g))"
  using assms
  by (simp add: leader_samples_def uncapped_def Let_def split_beta split: option.splits)

lemma uncapped_limit: "uncapped R (a\<lparr>sample_limit := l\<rparr>) n derived g = uncapped R a n derived g"
  by (simp add: uncapped_def)

text \<open>
  C6. Let a leader's list be the one emitted under a cap \<open>cap \<ge> 0\<close>. The list emitted
  without the cap is the path-derived records (no seed) followed by the augmentation records
  (each with a seed); the capped list is the first \<open>min total cap\<close> records of it. So a cap
  that leaves room for the path-derived records keeps them all, and a tighter cap leaves
  no augmentation record.
\<close>

theorem sample_limit_truncates:
  assumes "leader_samples R a slashes s pos g = Inr (samples, pos', g')"
    and "sample_limit a = Some cap" and "0 \<le> cap"
  shows "\<exists>derived augmented.
     leader_samples R (a\<lparr>sample_limit := None\<rparr>) slashes s pos g = Inr (derived @ augmented, pos', g') \<and>
     extend_paths a slashes (all_paths_to_symbol (symbols a) s) [] pos = Inr (derived, pos') \<and>
     (\<forall>r \<in> set derived. sample_seed r = None) \<and>
     (\<forall>r \<in> set augmented. sample_seed r \<noteq> None) \<and>
     samples = take (min (length (derived @ augmented)) (nat cap)) (derived @ augmented) \<and>
     (length derived \<le> nat cap \<longrightarrow> take (length derived) samples = derived) \<and>
     (nat cap \<le> length derived \<longrightarrow> samples = take (nat cap) derived)"
proof -
  from leader_samples_Inr [OF assms(1)] obtain n derived where
    rc: "real_data_count a (all_symbols_to_symbol (symbols a) s) = Inr n" and
    ep: "extend_paths a slashes (all_paths_to_symbol (symbols a) s) [] pos = Inr (derived, pos')" and
    ne: "derived \<noteq> []" and g': "g' = snd (uncapped R a n derived g)" and
    sm: "samples = slice_to (fst (uncapped R a n derived g)) cap"
    using assms(2) by auto
  obtain augmented where full: "fst (uncapped R a n derived g) = derived @ augmented"
    and aug: "\<forall>r \<in> set augmented. sample_seed r \<noteq> None"
    using uncapped_appends [of R a n derived g] by blast
  have "leader_samples R (a\<lparr>sample_limit := None\<rparr>) slashes s pos g = Inr (derived @ augmented, pos', g')"
    using leader_samples_eq [of "a\<lparr>sample_limit := None\<rparr>" s n slashes pos derived pos' R g] rc ep ne full g'
    by (simp add: real_data_count_limit extend_paths_limit uncapped_limit)
  moreover from extend_paths_appends [OF ep] have "\<forall>r \<in> set derived. sample_seed r = None"
    by (simp add: appended_by_paths_def)
  moreover have s2: "samples = take (nat cap) (derived @ augmented)"
    using sm full assms(3) by (simp add: slice_to_nonneg)
  ultimately show ?thesis
    using ep aug by (intro exI [of _ derived] exI [of _ augmented]) (auto simp: min_def)
qed

lemma blocks_Cons: "blocks (l # ls) (c # cs) = replicate c l @ blocks ls cs"
  by (simp add: blocks_def)

lemma blocks_Nil: "blocks [] cs = []"
  by (simp add: blocks_def)

lemma set_blocks: "set (blocks ls counts) \<subseteq> set ls"
  by (auto simp: blocks_def dest: set_zip_leftD)

lemma load_leaders_blocks:
  "load_leaders R a slashes ls (pk, sk) pos g = Inr ((pk', sk'), pos', g') \<Longrightarrow>
   \<exists>counts. length counts = length ls \<and> sk' = sk @ blocks ls counts \<and>
            length pk' = length pk + length (blocks ls counts)"
proof (induction ls arbitrary: pk sk pos g)
  case Nil
  then show ?case by (simp add: blocks_Nil)
next
  case (Cons l ls)
  from Cons.prems obtain samples p1 g1 where
    l: "leader_samples R a slashes l pos g = Inr (samples, p1, g1)" and
    rest: "load_leaders R a slashes ls (pk @ samples, sk @ replicate (length samples) l) p1 g1
             = Inr ((pk', sk'), pos', g')"
    by (auto split: sum.splits)
  from Cons.IH [OF rest] obtain counts where c: "length counts = length ls"
    "sk' = (sk @ replicate (length samples) l) @ blocks ls counts"
    "length pk' = length (pk @ samples) + length (blocks ls counts)"
    by blast
  then have "length (length samples # counts) = length (l # ls) \<and>
             sk' = sk @ blocks (l # ls) (length samples # counts) \<and>
             length pk' = length pk + length (blocks (l # ls) (length samples # counts))"
    by (simp add: blocks_Cons)
  then show ?case by blast
qed

lemma transform_length: "transform enc labels = Inr cs \<Longrightarrow> length cs = length labels"
  by (induction labels arbitrary: cs) (auto split: option.splits sum.splits)

lemma blocks_split:
  "distinct ls \<Longrightarrow> length counts = length ls \<Longrightarrow> s \<in> set (blocks ls counts) \<Longrightarrow>
   \<exists>A c B. blocks ls counts = A @ replicate c s @ B \<and> s \<notin> set A \<and> s \<notin> set B \<and> 0 < c"
proof (induction ls arbitrary: counts)
  case Nil
  then show ?case by (simp add: blocks_Nil)
next
  case (Cons l ls)
  from Cons.prems(2) obtain c cs where counts: "counts = c # cs" and cs: "length cs = length ls"
    by (cases counts) auto
  show ?case
  proof (cases "s = l")
    case True
    with Cons.prems(1) have "s \<notin> set ls" by simp
    with set_blocks [of ls cs] have out: "s \<notin> set (blocks ls cs)" by blast
    with Cons.prems(3) counts True have "0 < c"
      by (auto simp: blocks_Cons)
    with out True counts have
      "blocks (l # ls) counts = [] @ replicate c s @ blocks ls cs \<and> s \<notin> set [] \<and>
       s \<notin> set (blocks ls cs) \<and> 0 < c"
      by (simp add: blocks_Cons)
    then show ?thesis by blast
  next
    case False
    with Cons.prems(3) counts have "s \<in> set (blocks ls cs)"
      by (auto simp: blocks_Cons)
    from Cons.IH [OF _ cs this] Cons.prems(1) obtain A c' B where
      "blocks ls cs = A @ replicate c' s @ B" "s \<notin> set A" "s \<notin> set B" "0 < c'"
      by auto
    with False counts have
      "blocks (l # ls) counts = (replicate c l @ A) @ replicate c' s @ B \<and>
       s \<notin> set (replicate c l @ A) \<and> s \<notin> set B \<and> 0 < c'"
      by (auto simp: blocks_Cons)
    then show ?thesis by blast
  qed
qed

lemma index_of_first: "s \<notin> set A \<Longrightarrow> index_of (A @ s # B) s = Some (length A)"
  by (induction A) auto

lemma index_of_block:
  "s \<notin> set A \<Longrightarrow> 0 < c \<Longrightarrow> index_of (A @ replicate c s @ B) s = Some (length A)"
  using index_of_first [of s A "replicate (c - 1) s @ B"]
  by (cases c) simp_all

lemma block_positions:
  assumes "s \<notin> set A" and "s \<notin> set B"
  shows "{i. i < length (A @ replicate c s @ B) \<and> (A @ replicate c s @ B) ! i = s}
           = {length A ..< length A + c}"
proof (intro set_eqI iffI)
  fix i assume "i \<in> {i. i < length (A @ replicate c s @ B) \<and> (A @ replicate c s @ B) ! i = s}"
  then have i: "i < length A + c + length B" and v: "(A @ replicate c s @ B) ! i = s"
    by simp_all
  have na: "\<not> i < length A"
  proof
    assume "i < length A"
    with v have "A ! i = s" by (simp add: nth_append)
    with \<open>i < length A\<close> assms(1) show False by (metis nth_mem)
  qed
  have "i < length A + c"
  proof (rule ccontr)
    assume n: "\<not> i < length A + c"
    with na have "\<not> i - length A < c" by arith
    with v na have "B ! (i - length A - c) = s" by (simp add: nth_append)
    moreover from n i have "i - length A - c < length B" by arith
    ultimately show False using assms(2) by (metis nth_mem)
  qed
  with na show "i \<in> {length A ..< length A + c}" by simp
next
  fix i assume "i \<in> {length A ..< length A + c}"
  then have "length A \<le> i" and "i - length A < c" by auto
  then show "i \<in> {i. i < length (A @ replicate c s @ B) \<and> (A @ replicate c s @ B) ! i = s}"
    by (auto simp: nth_append)
qed

lemma range_of_block:
  assumes "s \<notin> set A" and "s \<notin> set B" and "0 < c"
    and "symbol_keys d = A @ replicate c s @ B"
  shows "range_for_symbol d s = Inr [length A ..< length A + c]"
proof -
  have "index_of (symbol_keys d) s = Some (length A)"
    unfolding assms(4) by (rule index_of_block [OF assms(1,3)])
  moreover have "index_of (rev (symbol_keys d)) s = Some (length B)"
    using index_of_block [of s "rev B" c "rev A"] assms(2,3)
    by (simp add: assms(4))
  ultimately show ?thesis
    by (simp add: range_for_symbol_def assms(4))
qed

text \<open>
  C10. After a successful construction over distinct leaders, \<^verbatim>\<open>primary_keys\<close>,
  \<^verbatim>\<open>symbol_keys\<close> and \<^verbatim>\<open>encoded_labels\<close> have the same length; \<^verbatim>\<open>symbol_keys\<close> is one
  block of equal labels per leader, in the order of the leaders; and for every symbol that
  occurs in the dataset \<^verbatim>\<open>range_for_symbol\<close> returns exactly the indices that carry it.
\<close>

theorem dataset_lists_aligned:
  assumes "StrokeDataset_init R a = Inr d"
    and "distinct (leaders (symbols a))"
  shows "length (primary_keys d) = length (symbol_keys d) \<and>
         length (encoded_labels d) = length (symbol_keys d) \<and>
         (\<exists>counts. length counts = length (leaders (symbols a)) \<and>
                   symbol_keys d = blocks (leaders (symbols a)) counts) \<and>
         (\<forall>s \<in> set (symbol_keys d). \<exists>r.
              range_for_symbol d s = Inr r \<and>
              set r = {i. i < length (symbol_keys d) \<and> symbol_keys d ! i = s})"
proof -
  from assms(1) obtain slashes pos g' where
    ll: "load_leaders R a slashes (leaders (symbols a)) ([], []) 0 (seed_state R (random_seed a))
           = Inr ((primary_keys d, symbol_keys d), pos, g')" and
    tr: "transform (label_encoder a) (symbol_keys d) = Inr (encoded_labels d)"
    by (auto simp: StrokeDataset_init_def Let_def split: sum.splits)
  from load_leaders_blocks [OF ll] obtain counts where
    c: "length counts = length (leaders (symbols a))" and
    sk: "symbol_keys d = blocks (leaders (symbols a)) counts" and
    pk: "length (primary_keys d) = length (blocks (leaders (symbols a)) counts)"
    by auto
  have rng: "\<exists>r. range_for_symbol d s = Inr r \<and>
                 set r = {i. i < length (symbol_keys d) \<and> symbol_keys d ! i = s}"
    if "s \<in> set (symbol_keys d)" for s
  proof -
    from that sk have "s \<in> set (blocks (leaders (symbols a)) counts)" by simp
    from blocks_split [OF assms(2) c this] obtain A c B where
      "blocks (leaders (symbols a)) counts = A @ replicate c s @ B"
      and out: "s \<notin> set A" "s \<notin> set B" and "0 < c"
      by blast
    with sk have split: "symbol_keys d = A @ replicate c s @ B" by simp
    have "range_for_symbol d s = Inr [length A ..< length A + c]"
      by (rule range_of_block [OF out \<open>0 < c\<close> split])
    moreover have "set [length A ..< length A + c]
        = {i. i < length (symbol_keys d) \<and> symbol_keys d ! i = s}"
      unfolding split using block_positions [OF out, of c] by simp
    ultimately show ?thesis by blast
  qed
  show ?thesis
    using pk sk c transform_length [OF tr] rng by auto
qed

subsection \<open>Leaders without samples\<close>




lemma extend_paths_nothing:
  "extend_paths a slashes paths samples pos = Inr (res, pos') \<Longrightarrow>
   (res = samples) =
   (slashes = [] \<or> list_all (\<lambda>p. load_primary_keys a [fst p] = Inr []) paths)"
proof (induction paths arbitrary: samples pos)
  case Nil
  then show ?case by simp
next
  case (Cons p paths)
  obtain current_key transformations negation where p: "p = (current_key, transformations, negation)"
    by (cases p)
  from Cons.prems p obtain rows where rows: "load_primary_keys a [current_key] = Inr rows"
    by (auto split: sum.splits)
  let ?pairs = "fst (zip_cycle rows slashes pos)"
  let ?mid = "snd (zip_cycle rows slashes pos)"
  let ?first = "map (\<lambda>(row, slash_id). (row, transformations, (negation, slash_id), None)) ?pairs"
  from Cons.prems p rows
  have rest: "extend_paths a slashes paths (samples @ ?first) ?mid = Inr (res, pos')"
    by (simp add: split_beta)
  from extend_paths_appends [OF rest] obtain new where new: "res = (samples @ ?first) @ new"
    by blast
  from Cons.IH [OF rest] have ih:
    "(res = samples @ ?first) =
     (slashes = [] \<or> list_all (\<lambda>p. load_primary_keys a [fst p] = Inr []) paths)" .
  show ?case
  proof (cases "slashes = []")
    case True
    with ih show ?thesis by (simp add: zip_cycle_no_slash)
  next
    case False
    have len: "length ?first = length rows"
      by (simp add: zip_cycle_length [OF False])
    have "(res = samples) = (rows = [] \<and> res = samples @ ?first)"
      using new len by auto
    with ih False p rows show ?thesis by auto
  qed
qed


lemma leader_samples_something:
  assumes "leader_samples R a slashes s pos g = Inr r"
  shows "\<not> yields_nothing a slashes s"
proof -
  obtain samples pos' g' where "r = (samples, pos', g')" by (cases r)
  with leader_samples_Inr [of R a slashes s pos g samples pos' g'] assms obtain derived where
    e: "extend_paths a slashes (all_paths_to_symbol (symbols a) s) [] pos = Inr (derived, pos')"
    and "derived \<noteq> []"
    by auto
  with extend_paths_nothing [OF e] show ?thesis
    by (simp add: yields_nothing_def)
qed


lemma load_leaders_something:
  "load_leaders R a slashes ls acc pos g = Inr r \<Longrightarrow> \<forall>s \<in> set ls. \<not> yields_nothing a slashes s"
proof (induction ls arbitrary: acc pos g)
  case Nil
  show ?case by simp
next
  case (Cons l ls)
  obtain pk sk where acc: "acc = (pk, sk)" by (cases acc)
  from Cons.prems acc obtain samples p1 g1 where
    l: "leader_samples R a slashes l pos g = Inr (samples, p1, g1)" and
    rest: "load_leaders R a slashes ls (pk @ samples, sk @ replicate (length samples) l) p1 g1 = Inr r"
    by (auto split: sum.splits)
  from leader_samples_something [OF l] Cons.IH [OF rest] show ?case by simp
qed



subsection \<open>The slash cycle\<close>

lemma path_derived_append: "path_derived (xs @ ys) = path_derived xs @ path_derived ys"
  by (simp add: path_derived_def)

lemma path_derived_all: "\<forall>r \<in> set xs. sample_seed r = None \<Longrightarrow> path_derived xs = xs"
  by (simp add: path_derived_def)

lemma path_derived_none: "\<forall>r \<in> set xs. sample_seed r \<noteq> None \<Longrightarrow> path_derived xs = []"
  by (simp add: path_derived_def)

lemma cycle_inv_step:
  assumes "cycle_inv slashes pk pos"
    and "leader_samples R a slashes s pos g = Inr (samples, pos', g')"
    and "sample_limit a = None"
  shows "cycle_inv slashes (pk @ samples) pos'"
proof -
  from leader_samples_Inr [OF assms(2)] assms(3) obtain n derived where
    e: "extend_paths a slashes (all_paths_to_symbol (symbols a) s) [] pos = Inr (derived, pos')" and
    ne: "derived \<noteq> []" and sm: "samples = fst (uncapped R a n derived g)"
    by auto
  from uncapped_appends [of R a n derived g] sm obtain aug where
    full: "samples = derived @ aug" and aug: "\<forall>r \<in> set aug. sample_seed r \<noteq> None"
    by auto
  from extend_paths_appends [OF e] have ap: "appended_by_paths slashes pos derived pos'"
    by simp
  with ne have sl: "slashes \<noteq> []" and p': "pos' = pos + length derived"
    and seed: "\<forall>r \<in> set derived. sample_seed r = None"
    and sl_at: "\<forall>i < length derived. sample_slash (derived ! i) = slashes ! ((pos + i) mod length slashes)"
    by (auto simp: appended_by_paths_def)
  from assms(1) sl have pos: "pos = length (path_derived pk)"
    and old: "\<forall>i < length (path_derived pk).
                sample_slash (path_derived pk ! i) = slashes ! (i mod length slashes)"
    by (simp_all add: cycle_inv_def)
  have pd: "path_derived (pk @ samples) = path_derived pk @ derived"
    by (simp add: full path_derived_append path_derived_all [OF seed] path_derived_none [OF aug])
  show ?thesis
    unfolding cycle_inv_def pd
  proof (intro conjI impI allI)
    show "pos' = length (path_derived pk @ derived)"
      using p' pos by simp
    fix i assume i: "i < length (path_derived pk @ derived)"
    show "sample_slash ((path_derived pk @ derived) ! i) = slashes ! (i mod length slashes)"
    proof (cases "i < length (path_derived pk)")
      case True
      with old show ?thesis by (simp add: nth_append)
    next
      case False
      then have "i - pos < length derived" "pos + (i - pos) = i"
        using i pos by simp_all
      with sl_at False pos show ?thesis
        by (metis nth_append)
    qed
  qed
qed

lemma cycle_inv_leaders:
  assumes "sample_limit a = None"
  shows "load_leaders R a slashes ls (pk, sk) pos g = Inr ((pk', sk'), pos', g') \<Longrightarrow>
         cycle_inv slashes pk pos \<Longrightarrow> cycle_inv slashes pk' pos'"
proof (induction ls arbitrary: pk sk pos g)
  case Nil
  then show ?case by simp
next
  case (Cons l ls)
  from Cons.prems(1) obtain samples p1 g1 where
    l: "leader_samples R a slashes l pos g = Inr (samples, p1, g1)" and
    rest: "load_leaders R a slashes ls (pk @ samples, sk @ replicate (length samples) l) p1 g1
             = Inr ((pk', sk'), pos', g')"
    by (auto split: sum.splits)
  from cycle_inv_step [OF Cons.prems(2) l assms] have "cycle_inv slashes (pk @ samples) p1" .
  from Cons.IH [OF rest this] show ?case .
qed

lemma cycle_no_repeat:
  fixes i j k :: nat
  assumes "i < j" and "j < i + k"
  shows "i mod k \<noteq> j mod k"
proof
  assume "i mod k = j mod k"
  then have "k dvd j - i"
    using assms(1) mod_eq_dvd_iff_nat [of i j k] by simp
  moreover have "0 < j - i" using assms(1) by simp
  ultimately have "k \<le> j - i" by (rule dvd_imp_le)
  with assms show False by arith
qed

text \<open>
  C2 (as the code has it). Every path-derived record draws one key from the cycle, whether
  it carries a negation or not. Without a sample cap, the \<open>i\<close>-th path-derived record of
  the dataset (counted from 0 over all leaders, in emission order) holds the slash key at
  index \<open>i mod k\<close> of the \<open>k\<close> keys that \<^verbatim>\<open>load_primary_keys\<close> returns for the group of the
  vertical line in the current view; the next \<open>k - 1\<close> records hold other positions of
  the cycle.
\<close>

theorem slash_round_robin:
  assumes "StrokeDataset_init R a = Inr d"
    and "sample_limit a = None"
    and "load_primary_keys a (get_similarity_group (symbols a) vertical_line) = Inr slashes"
    and "i < length (path_derived (primary_keys d))"
  shows "slashes \<noteq> [] \<and>
         sample_slash (path_derived (primary_keys d) ! i) = slashes ! (i mod length slashes) \<and>
         (\<forall>j. i < j \<and> j < i + length slashes \<longrightarrow> i mod length slashes \<noteq> j mod length slashes)"
proof -
  from assms(1,3) obtain pos g' where
    ll: "load_leaders R a slashes (leaders (symbols a)) ([], []) 0 (seed_state R (random_seed a))
           = Inr ((primary_keys d, symbol_keys d), pos, g')"
    by (auto simp: StrokeDataset_init_def Let_def split: sum.splits)
  have "cycle_inv slashes [] 0"
    by (simp add: cycle_inv_def path_derived_def)
  from cycle_inv_leaders [OF assms(2) ll this] have inv: "cycle_inv slashes (primary_keys d) pos" .
  have "slashes \<noteq> []"
  proof
    assume "slashes = []"
    have "primary_keys d = []"
    proof (cases "leaders (symbols a)")
      case Nil
      with ll show ?thesis by simp
    next
      case (Cons l ls)
      with load_leaders_something [OF ll] have "\<not> yields_nothing a slashes l" by simp
      with \<open>slashes = []\<close> show ?thesis by (simp add: yields_nothing_def)
    qed
    with assms(4) show False by (simp add: path_derived_def)
  qed
  with inv assms(4) show ?thesis by (simp add: cycle_inv_def cycle_no_repeat)
qed

subsection \<open>The theorems on concrete inputs\<close>

lemma demo_slashes:
  "load_primary_keys demo_args (get_similarity_group (symbols demo_args) vertical_line) = Inr [11, 12]"
proof -
  have c: "\<lceil>3 / 10 :: real\<rceil> = 1"
    by (rule ceiling_unique) simp_all
  show ?thesis
    by (simp add: load_primary_keys_def fetch_ids_def demo_args_def demo_symbols_def
        vertical_line_def slice_from_def c)
qed

lemma demo_load_A: "load_primary_keys demo_args [''A''] = Inr [1]"
  by (simp add: load_primary_keys_def fetch_ids_def demo_args_def vertical_line_def)

lemma demo_load_C: "load_primary_keys demo_args [''C''] = Inr [3]"
  by (simp add: load_primary_keys_def fetch_ids_def demo_args_def vertical_line_def)

lemma demo_init: "StrokeDataset_init counter_random demo_args = Inr demo_dataset"
proof -
  have s: "symbols demo_args = demo_symbols" "sample_limit demo_args = None"
    "random_augmentation demo_args = False" "random_seed demo_args = 0"
    by (simp_all add: demo_args_def)
  have l: "leader_samples counter_random demo_args [11, 12] ''A'' 0 g = Inr ([(1, [], (None, 11), None)], Suc 0, g)"
    "leader_samples counter_random demo_args [11, 12] ''D'' (Suc 0) g = Inr ([(1, [], (Some slash_recipe, 12), None)], 2, g)"
    "leader_samples counter_random demo_args [11, 12] ''C'' 2 g = Inr ([(3, [], (None, 11), None)], 3, g)" for g
    by (simp_all add: leader_samples_def s demo_symbols_def demo_load_A demo_load_C
        numeral_2_eq_2 [symmetric])
  have e: "label_encoder demo_args ''A'' = Some 0" "label_encoder demo_args ''D'' = Some 2"
    "label_encoder demo_args ''C'' = Some 1"
    by (simp_all add: demo_args_def)
  show ?thesis
    using demo_slashes
    by (simp add: StrokeDataset_init_def s l e demo_dataset_def demo_symbols_def)
qed


theorem slash_round_robin_witness:
  "StrokeDataset_init counter_random demo_args = Inr demo_dataset \<and>
   sample_limit demo_args = None \<and>
   load_primary_keys demo_args (get_similarity_group (symbols demo_args) vertical_line) = Inr [11, 12] \<and>
   1 < length (path_derived (primary_keys demo_dataset)) \<and>
   sample_slash (path_derived (primary_keys demo_dataset) ! 1) = [11, 12] ! (1 mod length [11 :: int, 12])"
proof -
  have h2: "sample_limit demo_args = None"
    by (simp add: demo_args_def)
  have h4: "1 < length (path_derived (primary_keys demo_dataset))"
    by (simp add: demo_dataset_def path_derived_def sample_seed_def)
  show ?thesis
    using slash_round_robin [OF demo_init h2 demo_slashes h4] demo_init h2 demo_slashes h4
    by simp
qed

text \<open>
  The leader \<open>A\<close> draws the first key of the cycle for a record without negation, so the
  first negation-tagged record, the one of \<open>D\<close>, holds the key at index 1, not at index
  \<open>0 mod 2\<close>.
\<close>

theorem negation_slash_counterexample:
  "StrokeDataset_init counter_random demo_args = Inr demo_dataset \<and>
   load_primary_keys demo_args (get_similarity_group (symbols demo_args) vertical_line) = Inr [11, 12] \<and>
   sample_slash (negation_tagged (primary_keys demo_dataset) ! 0) = 12 \<and>
   sample_slash (negation_tagged (primary_keys demo_dataset) ! 0) \<noteq> [11, 12] ! (0 mod length [11 :: int, 12])"
  using demo_init demo_slashes
  by (simp add: demo_dataset_def negation_tagged_def sample_negation_def sample_slash_def)

theorem dataset_lists_aligned_witness:
  "StrokeDataset_init counter_random demo_args = Inr demo_dataset \<and>
   distinct (leaders (symbols demo_args)) \<and>
   length (primary_keys demo_dataset) = length (symbol_keys demo_dataset) \<and>
   length (encoded_labels demo_dataset) = length (symbol_keys demo_dataset) \<and>
   ''D'' \<in> set (symbol_keys demo_dataset) \<and>
   range_for_symbol demo_dataset ''D'' = Inr [1]"
proof -
  have h2: "distinct (leaders (symbols demo_args))"
    by (simp add: demo_args_def demo_symbols_def)
  have r: "range_for_symbol demo_dataset ''D'' = Inr [1]"
    by (simp add: range_for_symbol_def demo_dataset_def)
  show ?thesis
    using dataset_lists_aligned [OF demo_init h2] demo_init h2 r
    by (simp add: demo_dataset_def)
qed



lemma amount_1_normal: "augmentation_amount 1 10 (1 / 5) = 9"
  using amount_1 by simp

lemma augment_numeral:
  "augment R (numeral k) samples g =
     (let ((symbol, transformations, negation_tuple, _), g1) = choice R g samples;
          (seed, g2) = randint R g1 0 (2 ^ 32 - 1)
      in augment R (pred_numeral k) (samples @ [(symbol, transformations, negation_tuple, Some seed)]) g2)"
  unfolding numeral_eq_Suc [of k] by (rule augment.simps(2))

lemma counter_choice: "choice counter_random g seq = (seq ! (g mod length seq), Suc g)"
  by (simp add: choice_def counter_random_def)

lemma arith32: "(4294967295::nat) - 0 + 1 = 4294967296"
  by simp

lemma counter_randint: "randint counter_random g 0 4294967295 = (g mod 4294967296, Suc g)"
  unfolding randint_def counter_random_def by (simp only: arith32 py_random.simps Let_def split_conv add_0)


lemma augment_numeral_normal:
  "augment R (numeral k) samples g =
     (let ((symbol, transformations, negation_tuple, _), g1) = choice R g samples;
          (seed, g2) = randint R g1 0 4294967295
      in augment R (pred_numeral k) (samples @ [(symbol, transformations, negation_tuple, Some seed)]) g2)"
proof -
  have "(2 :: nat) ^ 32 - 1 = 4294967295" by simp
  with augment_numeral [of R k samples g] show ?thesis by simp
qed

lemma augment_nine:
  "augment counter_random 9 [(3, [], (None, 11), None)] 0 =
     ([(3, [], (None, 11), None), (3, [], (None, 11), Some 1), (3, [], (None, 11), Some 3),
       (3, [], (None, 11), Some 5), (3, [], (None, 11), Some 7), (3, [], (None, 11), Some 9),
       (3, [], (None, 11), Some 11), (3, [], (None, 11), Some 13), (3, [], (None, 11), Some 15),
       (3, [], (None, 11), Some 17)], 18)"
  by (simp add: augment_numeral_normal counter_choice counter_randint)

lemma capped_leader:
  "leader_samples counter_random capped_args [11, 12] ''C'' 0 0 =
     Inr ([(3, [], (None, 11), None), (3, [], (None, 11), Some 1), (3, [], (None, 11), Some 3)], 1, 18)"
proof -
  have s: "symbols capped_args = demo_symbols" "sample_limit capped_args = Some 3"
    "random_augmentation capped_args = True"
    by (simp_all add: capped_args_def demo_args_def)
  have c: "load_primary_keys capped_args [''C''] = Inr [3]"
    by (simp add: load_primary_keys_def fetch_ids_def capped_args_def demo_args_def vertical_line_def)
  show ?thesis
    by (simp add: leader_samples_def s demo_symbols_def c amount_1_normal augment_nine slice_to_def)
qed

theorem sample_limit_truncates_witness:
  "leader_samples counter_random capped_args [11, 12] ''C'' 0 0 =
     Inr ([(3, [], (None, 11), None), (3, [], (None, 11), Some 1), (3, [], (None, 11), Some 3)], 1, 18) \<and>
   sample_limit capped_args = Some 3 \<and> (0 :: int) \<le> 3 \<and>
   (\<exists>derived augmented.
      leader_samples counter_random (capped_args\<lparr>sample_limit := None\<rparr>) [11, 12] ''C'' 0 0
        = Inr (derived @ augmented, 1, 18) \<and>
      [(3, [], (None, 11), None), (3, [], (None, 11), Some 1), (3, [], (None, 11), Some 3)]
        = take (min (length (derived @ augmented)) (nat 3)) (derived @ augmented))"
proof -
  have h2: "sample_limit capped_args = Some 3"
    by (simp add: capped_args_def demo_args_def)
  have h3: "(0 :: int) \<le> 3" by simp
  from sample_limit_truncates [OF capped_leader h2 h3] capped_leader h2 h3
  show ?thesis by blast
qed

subsection \<open>Rendering a record\<close>





lemma demo_load_1: "load_stroke_data (demo_world h) 1 = Inr [[(100, 200), (300, 400)]]"
  by (simp add: load_stroke_data_def demo_world_def demo_strokes_def)



text \<open>
  C3. The record with the seed 1 is evaluated in two worlds that differ only in the state
  of the numpy generator. The seed fixes the operation (a scale jitter), but the two
  parameters come from numpy, and the transformed strokes differ.
\<close>

theorem jitter_depends_on_numpy_state:
  "fst (augmentation_matrix counter_random demo_rendering (Some 1) (demo_world 0)) = [scale_matrix (9 / 10) (91 / 100)] \<and>
   fst (augmentation_matrix counter_random demo_rendering (Some 1) (demo_world 5)) = [scale_matrix (95 / 100) (96 / 100)] \<and>
   map_sum id fst (load_transformed_strokes counter_random demo_rendering jitter_dataset 0 (demo_world 0))
     = Inr ([[(90, 182), (270, 364)]], ''A'') \<and>
   map_sum id fst (load_transformed_strokes counter_random demo_rendering jitter_dataset 0 (demo_world 5))
     = Inr ([[(95, 192), (285, 384)]], ''A'')"
proof -
  have r: "randint counter_random (seed_state counter_random (Suc 0)) 0 2 = (Suc 0, 2)"
    by (simp add: randint_def counter_random_def)
  have nu: "np_uniform demo_rendering h lo hi = (lo + (hi - lo) * (real (h mod 10) / 10), Suc h)"
    for h lo hi
    by (simp add: demo_rendering_def)
  have w: "np_rng (demo_world h) = h" for h
    by (simp add: demo_world_def)
  have a0: "augmentation_matrix counter_random demo_rendering (Some (Suc 0)) (demo_world 0)
              = ([scale_matrix (9 / 10) (91 / 100)], (demo_world 0)\<lparr>py_rng := 2, np_rng := 2\<rparr>)"
    by (simp add: augmentation_matrix_def r nu w)
  have a5: "augmentation_matrix counter_random demo_rendering (Some (Suc 0)) (demo_world 5)
              = ([scale_matrix (19 / 20) (24 / 25)], (demo_world 5)\<lparr>py_rng := 2, np_rng := 7\<rparr>)"
    by (simp add: augmentation_matrix_def r nu w)
  have ap: "apply_transformations demo_rendering s ms = map (map (\<lambda>p. fold act ms p)) s"
    "rescale_and_center_viewport demo_rendering s x y = s" for s ms x y
    by (simp_all add: demo_rendering_def)
  show ?thesis
    by (simp add: a0 a5 load_transformed_strokes_def jitter_dataset_def demo_load_1 ap)
qed

subsection \<open>The sanity check of the similarity files\<close>

lemma line_set_Inr:
  "line_set file line ss S = Inr S' \<longleftrightarrow> distinct ss \<and> set ss \<inter> S = {} \<and> S' = S \<union> set ss"
  by (induction ss arbitrary: S) auto

lemma read_lines_Inr:
  "read_lines file lines acc = Inr ls \<longleftrightarrow>
     (\<forall>line \<in> set lines. distinct line) \<and>
     distinct (map set lines) \<and> set (map set lines) \<inter> set acc = {} \<and>
     ls = acc @ map set lines"
proof (induction lines arbitrary: acc)
  case Nil
  show ?case by auto
next
  case (Cons line lines)
  show ?case
  proof (cases "distinct line")
    case False
    then have "\<forall>S'. line_set file line line {} \<noteq> Inr S'"
      by (simp add: line_set_Inr)
    then obtain e where "line_set file line line {} = Inl e"
      by (cases "line_set file line line {}") auto
    with False show ?thesis by simp
  next
    case True
    then have l: "line_set file line line {} = Inr (set line)"
      by (simp add: line_set_Inr)
    show ?thesis
      using True by (auto simp: l Cons.IH)
  qed
qed

lemma set_numbered:
  "set (zip [1 ..< Suc (length ls)] ls) = {(Suc i, ls ! i) | i. i < length ls}"
proof -
  have n: "[Suc 0 ..< Suc (length ls)] ! i = Suc i" if "i < length ls" for i
    using that nth_upt [of "Suc 0" i "Suc (length ls)"] by (simp del: upt_Suc)
  have "set (zip [Suc 0 ..< Suc (length ls)] ls) = {(Suc i, ls ! i) | i. i < length ls}"
  proof (intro set_eqI iffI)
    fix x assume "x \<in> set (zip [Suc 0 ..< Suc (length ls)] ls)"
    then obtain i where "i < length ls" "x = ([Suc 0 ..< Suc (length ls)] ! i, ls ! i)"
      by (auto simp: set_zip simp del: upt_Suc)
    with n show "x \<in> {(Suc i, ls ! i) | i. i < length ls}" by auto
  next
    fix x assume "x \<in> {(Suc i, ls ! i) | i. i < length ls}"
    then obtain i where i: "i < length ls" "x = (Suc i, ls ! i)" by auto
    with n show "x \<in> set (zip [Suc 0 ..< Suc (length ls)] ls)"
      unfolding set_zip by (auto simp del: upt_Suc intro!: exI [of _ i])
  qed
  then show ?thesis by (simp del: upt_Suc)
qed

lemma set_line_pairs:
  "set (line_pairs ls) =
     {((Suc i, ls ! i), (Suc j, ls ! j)) | i j. i < length ls \<and> j < length ls}"
  unfolding line_pairs_def set_product set_numbered by auto

lemma first_subset_None:
  "first_subset ls = None \<longleftrightarrow>
     (\<forall>i < length ls. \<forall>j < length ls. i \<noteq> j \<longrightarrow> \<not> ls ! i \<subseteq> ls ! j)"
  unfolding first_subset_def map_option_is_None find_None_iff set_line_pairs
  by fastforce

lemma first_shared_None:
  "first_shared ls = None \<longleftrightarrow>
     (\<forall>i < length ls. \<forall>j < length ls. i \<noteq> j \<longrightarrow> ls ! i \<inter> ls ! j = {})"
  unfolding first_shared_def map_option_is_None find_None_iff set_line_pairs
  by fastforce


lemma distinct_sets_of_no_subset:
  assumes "\<forall>i < length ls. \<forall>j < length ls. i \<noteq> j \<longrightarrow> \<not> ls ! i \<subseteq> ls ! j"
  shows "distinct ls"
  unfolding distinct_conv_nth using assms by (metis subset_refl)

lemma check_file_Inr:
  "check_file f = Inr () \<longleftrightarrow>
     (\<forall>line \<in> set (snd f). distinct line) \<and>
     (\<forall>i < length (snd f). \<forall>j < length (snd f). i \<noteq> j \<longrightarrow>
        \<not> set (snd f ! i) \<subseteq> set (snd f ! j)) \<and>
     (\<forall>i < length (snd f). \<forall>j < length (snd f). i \<noteq> j \<longrightarrow>
        set (snd f ! i) \<inter> set (snd f ! j) = {})"
  (is "?lhs \<longleftrightarrow> ?d \<and> ?sub \<and> ?dis")
proof -
  let ?ls = "map set (snd f)"
  have sub: "first_subset ?ls = None \<longleftrightarrow> ?sub"
    by (simp add: first_subset_None)
  have dis: "first_shared ?ls = None \<longleftrightarrow> ?dis"
    by (simp add: first_shared_None)
  show ?thesis
  proof (cases "read_lines (fst f) (snd f) []")
    case (Inl e)
    then have "\<not> (?d \<and> distinct ?ls)"
      using read_lines_Inr [of "fst f" "snd f" "[]" ?ls] by auto
    moreover have "?sub \<Longrightarrow> distinct ?ls"
      using distinct_sets_of_no_subset [of ?ls] by simp
    ultimately show ?thesis
      using Inl by (auto simp: check_file_def)
  next
    case (Inr ls)
    then have ls: "ls = ?ls" and d: ?d
      using read_lines_Inr [of "fst f" "snd f" "[]" ls] by auto
    show ?thesis
      using Inr d sub dis unfolding check_file_def ls
      by (auto split: option.splits)
  qed
qed

lemma check_files_Inr: "check_files files = Inr () \<longleftrightarrow> (\<forall>f \<in> set files. check_file f = Inr ())"
  by (induction files) (auto split: sum.splits)

lemma mset_fold_remove1: "mset (fold remove1 xs ys) = mset ys - mset xs"
  by (induction xs arbitrary: ys) (simp_all add: diff_diff_add)

lemma leftover_empty: "fold remove1 (remdups ks) ks = [] \<longleftrightarrow> distinct ks"
proof
  assume "fold remove1 (remdups ks) ks = []"
  then have "mset ks - mset (remdups ks) = {#}"
    using mset_fold_remove1 [of "remdups ks" ks] by simp
  then have "mset ks \<subseteq># mset (remdups ks)"
    by (simp only: Diff_eq_empty_iff_mset)
  then have "size (mset ks) \<le> size (mset (remdups ks))"
    by (rule size_mset_mono)
  then have "length ks \<le> card (set ks)"
    by (simp add: length_remdups_card_conv)
  with card_length [of ks] show "distinct ks"
    by (simp add: card_distinct)
next
  assume "distinct ks"
  then have "mset (fold remove1 (remdups ks) ks) = {#}"
    by (simp add: mset_fold_remove1 distinct_remdups_id)
  then show "fold remove1 (remdups ks) ks = []"
    by simp
qed

lemma check_keys_Inr:
  "check_keys files global_keys = Inr () \<longleftrightarrow>
     (\<forall>f \<in> set files. distinct (concat (snd f)) \<and> set (concat (snd f)) \<inter> global_keys = {}) \<and>
     sorted_wrt (\<lambda>f g. set (concat (snd f)) \<inter> set (concat (snd g)) = {}) files"
proof (induction files arbitrary: global_keys)
  case Nil
  show ?case by simp
next
  case (Cons f files)
  show ?case
    by (simp add: Let_def leftover_empty Cons.IH) blast
qed

lemma similar_lists_accepted_iff:
  "test_similar_lists_disjunct files = Inr () \<longleftrightarrow>
     (\<forall>f \<in> set files.
        (\<forall>line \<in> set (snd f). distinct line) \<and>
        (\<forall>i < length (snd f). \<forall>j < length (snd f). i \<noteq> j \<longrightarrow>
           \<not> set (snd f ! i) \<subseteq> set (snd f ! j)) \<and>
        (\<forall>i < length (snd f). \<forall>j < length (snd f). i \<noteq> j \<longrightarrow>
           set (snd f ! i) \<inter> set (snd f ! j) = {}) \<and>
        distinct (concat (snd f))) \<and>
     (\<forall>i < length files. \<forall>j < length files. i \<noteq> j \<longrightarrow>
        set (concat (snd (files ! i))) \<inter> set (concat (snd (files ! j))) = {})"
proof -
  let ?P = "\<lambda>f g. set (concat (snd f)) \<inter> set (concat (snd g)) = {}"
  have pair: "sorted_wrt ?P files \<longleftrightarrow>
      (\<forall>i < length files. \<forall>j < length files. i \<noteq> j \<longrightarrow> ?P (files ! i) (files ! j))"
  proof
    assume s: "sorted_wrt ?P files"
    show "\<forall>i < length files. \<forall>j < length files. i \<noteq> j \<longrightarrow> ?P (files ! i) (files ! j)"
    proof (intro allI impI)
      fix i j assume ij: "i < length files" "j < length files" "i \<noteq> j"
      show "?P (files ! i) (files ! j)"
      proof (cases "i < j")
        case True
        with s ij show ?thesis by (simp add: sorted_wrt_iff_nth_less)
      next
        case False
        with ij have "j < i" by simp
        with s ij have "?P (files ! j) (files ! i)" by (simp add: sorted_wrt_iff_nth_less)
        then show ?thesis by blast
      qed
    qed
  next
    assume "\<forall>i < length files. \<forall>j < length files. i \<noteq> j \<longrightarrow> ?P (files ! i) (files ! j)"
    then show "sorted_wrt ?P files"
      by (simp add: sorted_wrt_iff_nth_less)
  qed
  define per_file where "per_file f \<longleftrightarrow>
        (\<forall>line \<in> set (snd f). distinct line) \<and>
        (\<forall>i < length (snd f). \<forall>j < length (snd f). i \<noteq> j \<longrightarrow>
           \<not> set (snd f ! i) \<subseteq> set (snd f ! j)) \<and>
        (\<forall>i < length (snd f). \<forall>j < length (snd f). i \<noteq> j \<longrightarrow>
           set (snd f ! i) \<inter> set (snd f ! j) = {})" for f :: metadata_file
  define across where "across \<longleftrightarrow>
     (\<forall>i < length files. \<forall>j < length files. i \<noteq> j \<longrightarrow> ?P (files ! i) (files ! j))"
  have a: "check_files files = Inr () \<longleftrightarrow> (\<forall>f \<in> set files. per_file f)"
    unfolding check_files_Inr check_file_Inr per_file_def ..
  have b: "check_keys files {} = Inr () \<longleftrightarrow>
             (\<forall>f \<in> set files. distinct (concat (snd f))) \<and> across"
    unfolding check_keys_Inr pair across_def by simp
  have "test_similar_lists_disjunct files = Inr () \<longleftrightarrow>
          check_files files = Inr () \<and> check_keys files {} = Inr ()"
    by (auto simp: test_similar_lists_disjunct_def split: sum.splits)
  then have "test_similar_lists_disjunct files = Inr () \<longleftrightarrow>
          (\<forall>f \<in> set files. per_file f \<and> distinct (concat (snd f))) \<and> across"
    unfolding a b by blast
  then show ?thesis
    unfolding per_file_def across_def by (simp only: conj_assoc)
qed


lemma count_list_pos: "x \<in> set xs \<Longrightarrow> 1 \<le> count_list xs x"
  using count_list_0_iff [of xs x] by (cases "count_list xs x") auto

lemma line_set_Inl:
  "line_set file line ss S = Inl e \<Longrightarrow>
   \<exists>s. e = ListedTwice s file line \<and> s \<in> set ss \<and> (s \<in> S \<or> 2 \<le> count_list ss s)"
proof (induction ss arbitrary: S)
  case Nil
  then show ?case by simp
next
  case (Cons x rest)
  show ?case
  proof (cases "x \<in> S")
    case True
    with Cons.prems show ?thesis by auto
  next
    case False
    with Cons.prems have "line_set file line rest (insert x S) = Inl e" by simp
    from Cons.IH [OF this] obtain s where s: "e = ListedTwice s file line" "s \<in> set rest"
      "s \<in> insert x S \<or> 2 \<le> count_list rest s"
      by blast
    then have "s \<in> S \<or> 2 \<le> count_list (x # rest) s"
      using count_list_pos [of s rest] by auto
    with s show ?thesis by auto
  qed
qed

lemma read_lines_Inl:
  "read_lines file lines acc = Inl e \<Longrightarrow>
   (\<exists>s line. e = ListedTwice s file line \<and> line \<in> set lines \<and> 2 \<le> count_list line s) \<or>
   (\<exists>line pre post. e = LineTwice line file \<and> lines = pre @ line # post \<and>
      set line \<in> set acc \<union> set ` set pre)"
proof (induction lines arbitrary: acc)
  case Nil
  then show ?case by simp
next
  case (Cons l rest)
  show ?case
  proof (cases "line_set file l l {}")
    case (Inl e')
    with Cons.prems have "e = e'" by simp
    with line_set_Inl [OF Inl] show ?thesis by auto
  next
    case (Inr S)
    then have S: "S = set l" by (simp add: line_set_Inr)
    show ?thesis
    proof (cases "S \<in> set acc")
      case True
      with Cons.prems Inr S have "e = LineTwice l file \<and> l # rest = [] @ l # rest \<and> set l \<in> set acc"
        by simp
      then show ?thesis by blast
    next
      case False
      with Cons.prems Inr have "read_lines file rest (acc @ [S]) = Inl e" by simp
      from Cons.IH [OF this] show ?thesis
      proof
        assume "\<exists>s line. e = ListedTwice s file line \<and> line \<in> set rest \<and> 2 \<le> count_list line s"
        then show ?thesis by auto
      next
        assume "\<exists>line pre post. e = LineTwice line file \<and> rest = pre @ line # post \<and>
                  set line \<in> set (acc @ [S]) \<union> set ` set pre"
        then obtain line pre post where "e = LineTwice line file" "rest = pre @ line # post"
          "set line \<in> set (acc @ [S]) \<union> set ` set pre"
          by blast
        with S have "e = LineTwice line file \<and> l # rest = (l # pre) @ line # post \<and>
                     set line \<in> set acc \<union> set ` set (l # pre)"
          by auto
        then show ?thesis by blast
      qed
    qed
  qed
qed

lemma find_pair_Some:
  assumes "find P (line_pairs ls) = Some ((i, a), (j, b))"
  shows "P ((i, a), (j, b)) \<and> 0 < i \<and> i \<le> length ls \<and> 0 < j \<and> j \<le> length ls \<and>
         a = ls ! (i - 1) \<and> b = ls ! (j - 1)"
proof -
  from assms have "P ((i, a), (j, b))" and "((i, a), (j, b)) \<in> set (line_pairs ls)"
    by (auto simp: find_Some_iff in_set_conv_nth)
  then show ?thesis
    unfolding set_line_pairs by auto
qed

lemma first_subset_Some:
  "first_subset ls = Some (i, j) \<Longrightarrow>
   0 < i \<and> i \<le> length ls \<and> 0 < j \<and> j \<le> length ls \<and> i \<noteq> j \<and> ls ! (i - 1) \<subseteq> ls ! (j - 1)"
  unfolding first_subset_def using find_pair_Some [of _ ls i _ j] by fastforce

lemma first_shared_Some:
  "first_shared ls = Some (i, j) \<Longrightarrow>
   0 < i \<and> i \<le> length ls \<and> 0 < j \<and> j \<le> length ls \<and> i \<noteq> j \<and> ls ! (i - 1) \<inter> ls ! (j - 1) \<noteq> {}"
  unfolding first_shared_def using find_pair_Some [of _ ls i _ j] by fastforce

lemma check_file_Inl:
  assumes "check_file f = Inl e" and "f \<in> set files"
  shows "located files e"
proof (cases "read_lines (fst f) (snd f) []")
  case (Inl e')
  with assms(1) have "e = e'" by (simp add: check_file_def)
  with read_lines_Inl [OF Inl] assms(2) show ?thesis
    by (cases f) fastforce
next
  case (Inr ls)
  then have ls: "ls = map set (snd f)"
    by (simp add: read_lines_Inr)
  show ?thesis
  proof (cases "first_subset ls")
    case (Some p)
    obtain i j where p: "p = (i, j)" by (cases p)
    with assms(1) Inr Some have e: "e = SubsetOf i j (fst f)" by (simp add: check_file_def)
    from first_subset_Some [of ls i j] Some p
    have b: "0 < i \<and> i \<le> length ls \<and> 0 < j \<and> j \<le> length ls \<and> i \<noteq> j"
      and c: "ls ! (i - 1) \<subseteq> ls ! (j - 1)"
      by simp_all
    from b ls have "i - 1 < length (snd f)" "j - 1 < length (snd f)" by auto
    with b c ls
    have "0 < i \<and> i \<le> length (snd f) \<and> 0 < j \<and> j \<le> length (snd f) \<and> i \<noteq> j \<and>
          set (snd f ! (i - 1)) \<subseteq> set (snd f ! (j - 1))"
      by (simp add: nth_map)
    with e assms(2) show ?thesis by (cases f) auto
  next
    case None
    with assms(1) Inr obtain i j where s: "first_shared ls = Some (i, j)"
      and e: "e = ShareSymbols i j (fst f)"
      by (auto simp: check_file_def split: option.splits)
    from first_shared_Some [OF s]
    have b: "0 < i \<and> i \<le> length ls \<and> 0 < j \<and> j \<le> length ls \<and> i \<noteq> j"
      and c: "ls ! (i - 1) \<inter> ls ! (j - 1) \<noteq> {}"
      by simp_all
    from b ls have "i - 1 < length (snd f)" "j - 1 < length (snd f)" by auto
    with b c ls
    have "0 < i \<and> i \<le> length (snd f) \<and> 0 < j \<and> j \<le> length (snd f) \<and> i \<noteq> j \<and>
          set (snd f ! (i - 1)) \<inter> set (snd f ! (j - 1)) \<noteq> {}"
      by (simp add: nth_map)
    with e assms(2) show ?thesis by (cases f) auto
  qed
qed

lemma check_files_Inl:
  "check_files fs = Inl e \<Longrightarrow> set fs \<subseteq> set files \<Longrightarrow> located files e"
proof (induction fs)
  case Nil
  then show ?case by simp
next
  case (Cons f fs)
  show ?case
  proof (cases "check_file f")
    case (Inl e')
    with Cons.prems show ?thesis using check_file_Inl [of f e files] by simp
  next
    case (Inr u)
    with Cons show ?thesis by simp
  qed
qed

lemma leftover_twice:
  assumes "k \<in> set (fold remove1 (remdups ks) ks)"
  shows "2 \<le> count_list ks k"
proof -
  from assms have "0 < count (mset (fold remove1 (remdups ks) ks)) k"
    by (simp add: count_greater_zero_iff)
  then have pos: "0 < count_list ks k - count_list (remdups ks) k"
    by (simp add: mset_fold_remove1 count_mset)
  then have "k \<in> set ks"
    using count_list_0_iff [of ks k] by auto
  then have "1 \<le> count_list (remdups ks) k"
    using count_list_pos [of k "remdups ks"] by simp
  with pos show ?thesis by simp
qed

lemma check_keys_Inl:
  "check_keys fs global_keys = Inl e \<Longrightarrow>
   (\<exists>file lines ks. e = DuplicateKeys file ks \<and> (file, lines) \<in> set fs \<and> ks \<noteq> [] \<and>
      (\<forall>k \<in> set ks. 2 \<le> count_list (concat lines) k)) \<or>
   (\<exists>pre file lines post S. e = KeysInAnotherFile file S \<and> fs = pre @ (file, lines) # post \<and>
      S = (global_keys \<union> (\<Union>g \<in> set pre. set (concat (snd g)))) \<inter> set (concat lines) \<and> S \<noteq> {})"
proof (induction fs arbitrary: global_keys)
  case Nil
  then show ?case by simp
next
  case (Cons f fs)
  obtain name lines where f: "f = (name, lines)" by (cases f)
  let ?keys = "concat lines"
  let ?left = "fold remove1 (remdups ?keys) ?keys"
  show ?case
  proof (cases "?left = []")
    case False
    with Cons.prems f have "e = DuplicateKeys name ?left" by (simp add: Let_def)
    moreover have "\<forall>k \<in> set ?left. 2 \<le> count_list ?keys k"
      by (intro ballI leftover_twice)
    ultimately show ?thesis using False f by auto
  next
    case True
    show ?thesis
    proof (cases "global_keys \<inter> set ?keys = {}")
      case False
      with Cons.prems f True have "e = KeysInAnotherFile name (global_keys \<inter> set ?keys)"
        by (simp add: Let_def)
      with False f have "e = KeysInAnotherFile name (global_keys \<inter> set ?keys) \<and>
          f # fs = [] @ (name, lines) # fs \<and>
          global_keys \<inter> set ?keys
            = (global_keys \<union> (\<Union>g \<in> set []. set (concat (snd g)))) \<inter> set (concat lines) \<and>
          global_keys \<inter> set ?keys \<noteq> {}"
        by simp
      then show ?thesis by blast
    next
      case disjoint: True
      with Cons.prems f True have "check_keys fs (global_keys \<union> set ?keys) = Inl e"
        by (simp add: Let_def)
      from Cons.IH [OF this] show ?thesis
      proof
        assume "\<exists>file lines ks. e = DuplicateKeys file ks \<and> (file, lines) \<in> set fs \<and> ks \<noteq> [] \<and>
                  (\<forall>k \<in> set ks. 2 \<le> count_list (concat lines) k)"
        then show ?thesis by auto
      next
        assume "\<exists>pre file' lines' post S. e = KeysInAnotherFile file' S \<and> fs = pre @ (file', lines') # post \<and>
            S = (global_keys \<union> set ?keys \<union> (\<Union>g \<in> set pre. set (concat (snd g)))) \<inter> set (concat lines') \<and>
            S \<noteq> {}"
        then obtain pre file' lines' post S where
          "e = KeysInAnotherFile file' S" "fs = pre @ (file', lines') # post"
          "S = (global_keys \<union> set ?keys \<union> (\<Union>g \<in> set pre. set (concat (snd g)))) \<inter> set (concat lines')"
          "S \<noteq> {}"
          by blast
        with f have "e = KeysInAnotherFile file' S \<and> f # fs = (f # pre) @ (file', lines') # post \<and>
          S = (global_keys \<union> (\<Union>g \<in> set (f # pre). set (concat (snd g)))) \<inter> set (concat lines') \<and>
          S \<noteq> {}"
          by auto
        then show ?thesis by blast
      qed
    qed
  qed
qed

lemma test_Inl:
  assumes "test_similar_lists_disjunct files = Inl e"
  shows "located files e"
proof (cases "check_files files")
  case (Inl e')
  with assms have "e = e'" by (simp add: test_similar_lists_disjunct_def)
  with check_files_Inl [OF Inl, of files] show ?thesis by simp
next
  case (Inr u)
  with assms have "check_keys files {} = Inl e" by (simp add: test_similar_lists_disjunct_def)
  from check_keys_Inl [OF this] show ?thesis
  proof (elim disjE exE conjE)
    fix name lines ks
    assume "e = DuplicateKeys name ks" "(name, lines) \<in> set files" "ks \<noteq> []"
      "\<forall>k \<in> set ks. 2 \<le> count_list (concat lines) k"
    then show ?thesis by (simp only: located.simps) blast
  next
    fix pre name lines post S
    assume "e = KeysInAnotherFile name S" "files = pre @ (name, lines) # post"
      "S = ({} \<union> (\<Union>g \<in> set pre. set (concat (snd g)))) \<inter> set (concat lines)" "S \<noteq> {}"
    then show ?thesis by (simp only: located.simps Un_empty_left) blast
  qed
qed


text \<open>
  C8 (as the code has it). The sanity check accepts the similarity files if and only if no
  symbol is listed twice within one line, no line of a file is a subset of (or identical
  to) another line of that file, no two lines of a file share a symbol, no key occurs twice
  within one file, and no key appears in two files. Every violation is rejected with a
  failure that locates it: by the symbol listed twice, by the repeated line, by the
  numbers of the two lines, or by the repeated keys.
\<close>

theorem similar_lists_checked:
  "(test_similar_lists_disjunct files = Inr () \<longleftrightarrow>
     (\<forall>f \<in> set files.
        (\<forall>line \<in> set (snd f). distinct line) \<and>
        (\<forall>i < length (snd f). \<forall>j < length (snd f). i \<noteq> j \<longrightarrow>
           \<not> set (snd f ! i) \<subseteq> set (snd f ! j)) \<and>
        (\<forall>i < length (snd f). \<forall>j < length (snd f). i \<noteq> j \<longrightarrow>
           set (snd f ! i) \<inter> set (snd f ! j) = {}) \<and>
        distinct (concat (snd f))) \<and>
     (\<forall>i < length files. \<forall>j < length files. i \<noteq> j \<longrightarrow>
        set (concat (snd (files ! i))) \<inter> set (concat (snd (files ! j))) = {})) \<and>
   (\<forall>e. test_similar_lists_disjunct files = Inl e \<longrightarrow> located files e)"
  using similar_lists_accepted_iff [of files] test_Inl [of files] by blast

lemma good_files_pass: "test_similar_lists_disjunct good_files = Inr ()"
  by (simp add: test_similar_lists_disjunct_def check_file_def first_subset_def first_shared_def
      line_pairs_def good_files_def)

lemma subset_files_fail:
  "test_similar_lists_disjunct subset_files = Inl (SubsetOf 2 1 ''similar.txt'')"
  by (simp add: test_similar_lists_disjunct_def check_file_def first_subset_def first_shared_def
      line_pairs_def subset_files_def)

theorem similar_lists_checked_witness:
  "test_similar_lists_disjunct good_files = Inr () \<and>
   distinct (concat (snd (good_files ! 0))) \<and>
   test_similar_lists_disjunct subset_files = Inl (SubsetOf 2 1 ''similar.txt'') \<and>
   located subset_files (SubsetOf 2 1 ''similar.txt'')"
proof -
  have "good_files ! 0 \<in> set good_files"
    by (simp add: good_files_def)
  with similar_lists_checked [of good_files] good_files_pass
  have "distinct (concat (snd (good_files ! 0)))"
    by blast
  with similar_lists_checked [of subset_files] good_files_pass subset_files_fail
  show ?thesis by blast
qed

text \<open>
  The second line of the file is a subset of its first line. The failure names the two
  line numbers and the file, and no symbol.
\<close>

theorem subset_failure_counterexample:
  "test_similar_lists_disjunct subset_files = Inl (SubsetOf 2 1 ''similar.txt'') \<and>
   named_symbols (SubsetOf 2 1 ''similar.txt'') = {}"
  using subset_files_fail by simp

subsection \<open>Loading a dictionary into an object\<close>






lemma attempt_Some:
  "\<not> skipped skip_attrs attribute \<Longrightarrow> data attribute = Some v \<Longrightarrow>
   attempt coerce data skip_attrs attribute expected_type = Some (coerce expected_type v)"
  by (simp add: attempt_def)







end
